theory Spec2Isabelle
  imports Complex_Main "HOL-Library.AList" "HOL-Library.Multiset"
begin

section \<open>JavaScript values\<close>

text \<open>
  The data-processing engine (\<^verbatim>\<open>utils/dataProcessor.ts\<close>) and the ingestion helpers
  of the upload panel (\<^verbatim>\<open>parseCSV\<close>, \<^verbatim>\<open>analyzeFields\<close>) work on untyped scalars.
  A number is \<^verbatim>\<open>NaN\<close>, an infinity or a finite value; a finite double is modelled by
  the rational it denotes, so rounding, overflow and the sign of zero are not part of the model.
  A string is a list of code units below 256. The one value that is not a scalar is
  \<open>JMember m\<close>, the member that every plain object inherits from \<^verbatim>\<open>Object.prototype\<close>
  under the name \<open>m\<close>: a built-in function, or, under \<^verbatim>\<open>__proto__\<close>, the prototype object
  itself. Reading a property of a row can yield it; no row holds it as a cell.
\<close>

datatype jsnum = NaN | Fin rat | PInf | NInf

datatype jsval = JUndefined | JNull | JBool bool | JNum jsnum | JStr string | JMember string

fun isNaN :: "jsnum \<Rightarrow> bool" where
  "isNaN NaN = True"
| "isNaN _ = False"

fun num_neg :: "jsnum \<Rightarrow> jsnum" where
  "num_neg NaN = NaN"
| "num_neg (Fin a) = Fin (- a)"
| "num_neg PInf = NInf"
| "num_neg NInf = PInf"

fun num_add :: "jsnum \<Rightarrow> jsnum \<Rightarrow> jsnum" where
  "num_add NaN _ = NaN"
| "num_add _ NaN = NaN"
| "num_add (Fin a) (Fin b) = Fin (a + b)"
| "num_add (Fin a) PInf = PInf"
| "num_add (Fin a) NInf = NInf"
| "num_add PInf NInf = NaN"
| "num_add NInf PInf = NaN"
| "num_add PInf _ = PInf"
| "num_add NInf _ = NInf"

definition num_sub :: "jsnum \<Rightarrow> jsnum \<Rightarrow> jsnum" where
  "num_sub a b = num_add a (num_neg b)"

text \<open>Division; a zero divisor is the positive zero.\<close>

fun num_div :: "jsnum \<Rightarrow> jsnum \<Rightarrow> jsnum" where
  "num_div NaN _ = NaN"
| "num_div _ NaN = NaN"
| "num_div (Fin a) (Fin b) =
     (if b = 0 then (if a = 0 then NaN else if 0 < a then PInf else NInf) else Fin (a / b))"
| "num_div (Fin a) PInf = Fin 0"
| "num_div (Fin a) NInf = Fin 0"
| "num_div PInf (Fin b) = (if 0 \<le> b then PInf else NInf)"
| "num_div NInf (Fin b) = (if 0 \<le> b then NInf else PInf)"
| "num_div PInf _ = NaN"
| "num_div NInf _ = NaN"

text \<open>The relational operators; every comparison with \<^verbatim>\<open>NaN\<close> is false.\<close>

fun num_lt :: "jsnum \<Rightarrow> jsnum \<Rightarrow> bool" where
  "num_lt NaN _ = False"
| "num_lt _ NaN = False"
| "num_lt (Fin a) (Fin b) = (a < b)"
| "num_lt (Fin a) PInf = True"
| "num_lt NInf (Fin b) = True"
| "num_lt NInf PInf = True"
| "num_lt _ _ = False"

definition num_gt :: "jsnum \<Rightarrow> jsnum \<Rightarrow> bool" where
  "num_gt a b = num_lt b a"

definition num_eq :: "jsnum \<Rightarrow> jsnum \<Rightarrow> bool" where
  "num_eq a b = (\<not> isNaN a \<and> a = b)"

definition num_le :: "jsnum \<Rightarrow> jsnum \<Rightarrow> bool" where
  "num_le a b = (num_lt a b \<or> num_eq a b)"

definition num_ge :: "jsnum \<Rightarrow> jsnum \<Rightarrow> bool" where
  "num_ge a b = num_le b a"

definition jsnum_of_nat :: "nat \<Rightarrow> jsnum" where
  "jsnum_of_nat n = Fin (of_nat n)"

subsection \<open>Strings\<close>

definition comma :: char where "comma = CHR 0x2C"
definition dquote :: char where "dquote = CHR 0x22"
definition newline :: char where "newline = CHR 0x0A"

text \<open>White space and line terminators, as \<^verbatim>\<open>String.prototype.trim\<close> strips them.\<close>

definition is_space :: "char \<Rightarrow> bool" where
  "is_space c = ((of_char c :: nat) \<in> {9, 10, 11, 12, 13, 32, 160})"

definition trim_start :: "string \<Rightarrow> string" where
  "trim_start s = dropWhile is_space s"

definition trim :: "string \<Rightarrow> string" where
  "trim s = rev (dropWhile is_space (rev (dropWhile is_space s)))"

definition lower_char :: "char \<Rightarrow> char" where
  "lower_char c = (let n = (of_char c :: nat) in
     if (65 \<le> n \<and> n \<le> 90) \<or> (192 \<le> n \<and> n \<le> 222 \<and> n \<noteq> 215)
     then char_of (n + 32) else c)"

definition toLowerCase :: "string \<Rightarrow> string" where
  "toLowerCase s = map lower_char s"

fun starts_with :: "string \<Rightarrow> string \<Rightarrow> bool" where
  "starts_with s [] = True"
| "starts_with [] (p # ps) = False"
| "starts_with (c # cs) (p # ps) = (c = p \<and> starts_with cs ps)"

fun str_includes :: "string \<Rightarrow> string \<Rightarrow> bool" where
  "str_includes [] t = (t = [])"
| "str_includes (c # cs) t = (starts_with (c # cs) t \<or> str_includes cs t)"

text \<open>\<^verbatim>\<open>s.split(sep)\<close> for a one-character separator: never empty, \<^verbatim>\<open>''.split(sep)\<close> is \<^verbatim>\<open>['']\<close>.\<close>

fun js_split :: "char \<Rightarrow> string \<Rightarrow> string list" where
  "js_split sep [] = [[]]"
| "js_split sep (c # cs) =
     (let ps = js_split sep cs in
      if c = sep then [] # ps else (c # hd ps) # tl ps)"

fun js_join :: "char \<Rightarrow> string list \<Rightarrow> string" where
  "js_join sep [] = []"
| "js_join sep [x] = x"
| "js_join sep (x # y # zs) = x @ sep # js_join sep (y # zs)"

subsection \<open>Numeric literals in strings\<close>

definition is_digit :: "char \<Rightarrow> bool" where
  "is_digit c = (48 \<le> (of_char c :: nat) \<and> (of_char c :: nat) \<le> 57)"

definition digits_val :: "string \<Rightarrow> int" where
  "digits_val ds = foldl (\<lambda>acc c. acc * 10 + ((of_char c :: int) - 48)) 0 ds"

definition scale10 :: "rat \<Rightarrow> int \<Rightarrow> rat" where
  "scale10 m e = (if 0 \<le> e then m * 10 ^ nat e else m / 10 ^ nat (- e))"

text \<open>
  The exponent part of a decimal literal: the exponent and the rest of the text; an
  indicator that no digit follows is not part of the literal.
\<close>

definition exponent_part :: "string \<Rightarrow> int \<times> string" where
  "exponent_part s =
     (case s of
        [] \<Rightarrow> (0, s)
      | c # r \<Rightarrow>
          if c = CHR ''e'' \<or> c = CHR ''E'' then
            (let neg = (r \<noteq> [] \<and> hd r = CHR ''-'');
                 r' = (if r \<noteq> [] \<and> (hd r = CHR ''+'' \<or> hd r = CHR ''-'') then tl r else r);
                 ds = takeWhile is_digit r'
             in if ds = [] then (0, s)
                else ((if neg then - digits_val ds else digits_val ds),
                      dropWhile is_digit r'))
          else (0, s))"

text \<open>The longest unsigned decimal literal at the start of a text, with the rest.\<close>

definition unsigned_decimal :: "string \<Rightarrow> (jsnum \<times> string) option" where
  "unsigned_decimal s =
     (if starts_with s ''Infinity'' then Some (PInf, drop 8 s)
      else
        let ip = takeWhile is_digit s; r1 = dropWhile is_digit s in
        if r1 \<noteq> [] \<and> hd r1 = CHR ''.'' then
          (let fp = takeWhile is_digit (tl r1); r2 = dropWhile is_digit (tl r1) in
           if ip = [] \<and> fp = [] then None
           else (case exponent_part r2 of
                   (e, r3) \<Rightarrow>
                     Some (Fin (scale10 (of_int (digits_val (ip @ fp))) (e - int (length fp))), r3)))
        else if ip = [] then None
        else (case exponent_part r1 of
                (e, r3) \<Rightarrow> Some (Fin (scale10 (of_int (digits_val ip)) e), r3)))"

definition decimal_prefix :: "string \<Rightarrow> (jsnum \<times> string) option" where
  "decimal_prefix s =
     (case s of
        [] \<Rightarrow> None
      | c # r \<Rightarrow>
          if c = CHR ''-'' then map_option (\<lambda>(v, t). (num_neg v, t)) (unsigned_decimal r)
          else if c = CHR ''+'' then unsigned_decimal r
          else unsigned_decimal s)"

text \<open>\<^verbatim>\<open>parseFloat\<close> of a string: leading white space is skipped, then the longest literal counts.\<close>

definition parseFloat_str :: "string \<Rightarrow> jsnum" where
  "parseFloat_str s = (case decimal_prefix (trim_start s) of None \<Rightarrow> NaN | Some (v, _) \<Rightarrow> v)"

text \<open>Hexadecimal, octal and binary integer literals, as \<^verbatim>\<open>Number\<close> accepts them.\<close>

definition radix_digit :: "char \<Rightarrow> int option" where
  "radix_digit c = (let n = (of_char c :: int) in
     if 48 \<le> n \<and> n \<le> 57 then Some (n - 48)
     else if 97 \<le> n \<and> n \<le> 102 then Some (n - 87)
     else if 65 \<le> n \<and> n \<le> 70 then Some (n - 55)
     else None)"

definition radix_val :: "int \<Rightarrow> string \<Rightarrow> jsnum" where
  "radix_val b ds =
     (if ds \<noteq> [] \<and> list_all (\<lambda>c. case radix_digit c of None \<Rightarrow> False | Some d \<Rightarrow> d < b) ds
      then Fin (of_int (foldl (\<lambda>acc c. acc * b + the (radix_digit c)) 0 ds))
      else NaN)"

definition Number_str :: "string \<Rightarrow> jsnum" where
  "Number_str s =
     (let t = trim s in
      if t = [] then Fin 0
      else if starts_with t ''0x'' \<or> starts_with t ''0X'' then radix_val 16 (drop 2 t)
      else if starts_with t ''0o'' \<or> starts_with t ''0O'' then radix_val 8 (drop 2 t)
      else if starts_with t ''0b'' \<or> starts_with t ''0B'' then radix_val 2 (drop 2 t)
      else (case decimal_prefix t of Some (v, []) \<Rightarrow> v | _ \<Rightarrow> NaN))"

subsection \<open>Rows, fields and the engine's built-ins\<close>

text \<open>
  A row is a plain object (an object literal, or an object of \<^verbatim>\<open>JSON.parse\<close>): the list
  of its own properties, in the order \<^verbatim>\<open>Object.keys\<close> lists them, with
  \<^verbatim>\<open>Object.prototype\<close> as its prototype. The rule that lists integer-like keys first is
  not modelled; where a statement below compares two objects entry by entry, the rule
  would move the entries of both alike.

  The names of the members of \<^verbatim>\<open>Object.prototype\<close> are \<open>prototype_members\<close>. Reading
  \<^verbatim>\<open>obj[k]\<close> yields the own property \<open>k\<close>, else the inherited member if \<open>k\<close> names one,
  else \<^verbatim>\<open>undefined\<close>. The assignment \<^verbatim>\<open>obj[k] = v\<close> writes the own property \<open>k\<close>, a new
  key going last; only under \<^verbatim>\<open>__proto__\<close>, when the object has no own property of that
  name, it runs the inherited setter instead, which creates no property. (Given
  \<^verbatim>\<open>null\<close> the setter also detaches the object from \<^verbatim>\<open>Object.prototype\<close>; cleaning
  assigns \<^verbatim>\<open>null\<close> this way for a date field named \<^verbatim>\<open>__proto__\<close>. The detached state
  is not followed: a detached object reads \<^verbatim>\<open>undefined\<close> where the model reads an
  inherited member, and takes a further assignment under \<^verbatim>\<open>__proto__\<close> as an own
  property. This changes an own property of a cleaned row only where the field list
  names \<^verbatim>\<open>__proto__\<close> twice.)
\<close>

type_synonym 'a object = "(string \<times> 'a) list"

type_synonym row = "jsval object"

definition prototype_members :: "string list" where
  "prototype_members =
     [''constructor'', ''__defineGetter__'', ''__defineSetter__'', ''hasOwnProperty'',
      ''__lookupGetter__'', ''__lookupSetter__'', ''isPrototypeOf'', ''propertyIsEnumerable'',
      ''toString'', ''valueOf'', ''__proto__'', ''toLocaleString'']"

definition inherited :: "string \<Rightarrow> bool" where
  "inherited k = (k \<in> set prototype_members)"

definition get :: "row \<Rightarrow> string \<Rightarrow> jsval" where
  "get r k =
     (case map_of r k of
        Some v \<Rightarrow> v
      | None \<Rightarrow> if inherited k then JMember k else JUndefined)"

definition set_prop :: "'a object \<Rightarrow> string \<Rightarrow> 'a \<Rightarrow> 'a object" where
  "set_prop obj k v =
     (if k = ''__proto__'' \<and> map_of obj k = None then obj else AList.update k v obj)"

datatype field_type = TString | TNumber | TDate

text \<open>
  A field descriptor; its optional \<^verbatim>\<open>sample\<close> text, which nothing here reads or
  writes, is left out.
\<close>

record FieldInfo =
  name :: string
  type :: field_type

text \<open>
  What the engine takes from the JavaScript run time and the source does not define:
  the decimal form of a finite number, the time value \<^verbatim>\<open>new Date(v).getTime()\<close>
  (\<open>None\<close> for an invalid date), \<^verbatim>\<open>toISOString\<close> of a valid time value,
  \<^verbatim>\<open>localeCompare\<close>, the order \<^verbatim>\<open>sort\<close> leaves under the random comparator of
  \<^verbatim>\<open>sample\<close>, \<^verbatim>\<open>JSON.stringify\<close> with indentation 2, and the string form of a member
  of \<^verbatim>\<open>Object.prototype\<close> (the text of a built-in function).
\<close>

record platform =
  number_to_string :: "rat \<Rightarrow> string"
  member_to_string :: "string \<Rightarrow> string"
  date_time :: "jsval \<Rightarrow> int option"
  to_iso_string :: "int \<Rightarrow> string"
  locale_compare :: "string \<Rightarrow> string \<Rightarrow> int"
  random_order :: "row list \<Rightarrow> row list"
  json_stringify :: "row list \<Rightarrow> string"

definition to_string :: "platform \<Rightarrow> jsval \<Rightarrow> string" where
  "to_string P v =
     (case v of
        JUndefined \<Rightarrow> ''undefined''
      | JNull \<Rightarrow> ''null''
      | JBool b \<Rightarrow> (if b then ''true'' else ''false'')
      | JNum NaN \<Rightarrow> ''NaN''
      | JNum PInf \<Rightarrow> ''Infinity''
      | JNum NInf \<Rightarrow> ''-Infinity''
      | JNum (Fin q) \<Rightarrow> number_to_string P q
      | JStr s \<Rightarrow> s
      | JMember m \<Rightarrow> member_to_string P m)"

text \<open>
  \<^verbatim>\<open>parseFloat(v)\<close> parses the string form of \<open>v\<close>; the string form of a number parses
  back to that number, and that of a member of \<^verbatim>\<open>Object.prototype\<close> (which starts with
  \<^verbatim>\<open>function\<close> or is \<^verbatim>\<open>[object Object]\<close>) is no number, for \<^verbatim>\<open>Number\<close> either.
\<close>

definition parseFloat :: "jsval \<Rightarrow> jsnum" where
  "parseFloat v = (case v of JStr s \<Rightarrow> parseFloat_str s | JNum n \<Rightarrow> n | _ \<Rightarrow> NaN)"

definition Number :: "jsval \<Rightarrow> jsnum" where
  "Number v =
     (case v of
        JUndefined \<Rightarrow> NaN
      | JNull \<Rightarrow> Fin 0
      | JBool b \<Rightarrow> (if b then Fin 1 else Fin 0)
      | JNum n \<Rightarrow> n
      | JStr s \<Rightarrow> Number_str s
      | JMember m \<Rightarrow> NaN)"

definition truthy :: "jsval \<Rightarrow> bool" where
  "truthy v =
     (case v of
        JUndefined \<Rightarrow> False
      | JNull \<Rightarrow> False
      | JBool b \<Rightarrow> b
      | JNum n \<Rightarrow> \<not> isNaN n \<and> n \<noteq> Fin 0
      | JStr s \<Rightarrow> s \<noteq> []
      | JMember m \<Rightarrow> True)"

definition nullish :: "jsval \<Rightarrow> bool" where
  "nullish v = (v = JUndefined \<or> v = JNull)"

text \<open>
  The loose equality \<^verbatim>\<open>==\<close>: two members are equal when they are the same object, and a
  member is compared with a scalar through its string form.
\<close>

definition loose_eq :: "platform \<Rightarrow> jsval \<Rightarrow> jsval \<Rightarrow> bool" where
  "loose_eq P x y =
     (if nullish x \<or> nullish y then nullish x \<and> nullish y
      else (case (x, y) of
              (JStr a, JStr b) \<Rightarrow> a = b
            | (JMember a, JMember b) \<Rightarrow> a = b
            | (JMember a, JStr b) \<Rightarrow> member_to_string P a = b
            | (JStr a, JMember b) \<Rightarrow> a = member_to_string P b
            | _ \<Rightarrow> num_eq (Number x) (Number y)))"

text \<open>The test \<^verbatim>\<open>value === null || value === undefined || value === ''\<close>.\<close>

definition is_missing :: "jsval \<Rightarrow> bool" where
  "is_missing v = (v = JNull \<or> v = JUndefined \<or> v = JStr [])"

text \<open>\<^verbatim>\<open>xs.slice(start, stop)\<close> for integral arguments.\<close>

definition js_slice :: "'a list \<Rightarrow> int \<Rightarrow> int \<Rightarrow> 'a list" where
  "js_slice xs start stop =
     (let n = int (length xs);
          k = (if start < 0 then max (n + start) 0 else min start n);
          fin = (if stop < 0 then max (n + stop) 0 else min stop n)
      in take (nat (fin - k)) (drop (nat k) xs))"

section \<open>The data processor\<close>

record DataProcessor =
  data :: "row list"
  fieldInfos :: "FieldInfo list"

subsection \<open>groupBy\<close>

text \<open>
  The groups are a plain object too. \<^verbatim>\<open>if (!groups[key]) groups[key] = []\<close> starts a
  group only where \<^verbatim>\<open>groups[key]\<close> reads \<^verbatim>\<open>undefined\<close>; where the key names a member of
  \<^verbatim>\<open>Object.prototype\<close> the read yields that member, which has no \<^verbatim>\<open>push\<close>, and
  \<^verbatim>\<open>groups[key].push(row)\<close> throws a \<^verbatim>\<open>TypeError\<close> that nothing catches.
\<close>

datatype js_error = TypeError

type_synonym groups = "row list object"

definition group_key :: "platform \<Rightarrow> string \<Rightarrow> row \<Rightarrow> string" where
  "group_key P fieldName r =
     to_string P (if truthy (get r fieldName) then get r fieldName else JStr ''Unknown'')"

definition groupBy_step :: "platform \<Rightarrow> string \<Rightarrow> groups \<Rightarrow> row \<Rightarrow> js_error + groups" where
  "groupBy_step P fieldName gs r =
     (let key = group_key P fieldName r;
          gs' = (if map_of gs key = None \<and> \<not> inherited key then set_prop gs key [] else gs)
      in case map_of gs' key of
           Some rows \<Rightarrow> Inr (AList.update key (rows @ [r]) gs')
         | None \<Rightarrow> Inl TypeError)"

fun groupBy_rows :: "platform \<Rightarrow> string \<Rightarrow> groups \<Rightarrow> row list \<Rightarrow> js_error + groups" where
  "groupBy_rows P fieldName gs [] = Inr gs"
| "groupBy_rows P fieldName gs (r # rs) =
     (case groupBy_step P fieldName gs r of
        Inl e \<Rightarrow> Inl e
      | Inr gs' \<Rightarrow> groupBy_rows P fieldName gs' rs)"

definition groupBy :: "platform \<Rightarrow> DataProcessor \<Rightarrow> string \<Rightarrow> js_error + groups" where
  "groupBy P dp fieldName = groupBy_rows P fieldName [] (data dp)"

subsection \<open>sample\<close>

datatype sample_method = Random | First | Last

definition sample :: "platform \<Rightarrow> DataProcessor \<Rightarrow> int \<Rightarrow> sample_method \<Rightarrow> row list" where
  "sample P dp sz method =
     (if int (length (data dp)) \<le> sz then data dp
      else (case method of
              First \<Rightarrow> js_slice (data dp) 0 sz
            | Last \<Rightarrow> js_slice (data dp) (- sz) (int (length (data dp)))
            | Random \<Rightarrow> js_slice (random_order P (data dp)) 0 sz))"

subsection \<open>filter\<close>

record FilterCondition =
  field :: string
  operator :: string
  "value" :: jsval
  value2 :: jsval

definition condition_holds :: "platform \<Rightarrow> row \<Rightarrow> FilterCondition \<Rightarrow> bool" where
  "condition_holds P r c =
     (let v = get r (field c) in
      if operator c = ''equals'' then loose_eq P v (value c)
      else if operator c = ''contains'' then
        str_includes (toLowerCase (to_string P v)) (toLowerCase (to_string P (value c)))
      else if operator c = ''greater'' then num_gt (parseFloat v) (parseFloat (value c))
      else if operator c = ''less'' then num_lt (parseFloat v) (parseFloat (value c))
      else if operator c = ''between'' then
        num_ge (parseFloat v) (parseFloat (value c)) \<and> num_le (parseFloat v) (parseFloat (value2 c))
      else if operator c = ''not_empty'' then \<not> is_missing v
      else True)"

definition filter_rows :: "platform \<Rightarrow> DataProcessor \<Rightarrow> FilterCondition list \<Rightarrow> row list" where
  "filter_rows P dp conditions =
     filter (\<lambda>r. list_all (condition_holds P r) conditions) (data dp)"

subsection \<open>clean\<close>

definition clean_value :: "platform \<Rightarrow> field_type \<Rightarrow> jsval \<Rightarrow> jsval" where
  "clean_value P ty v =
     (if is_missing v then
        (case ty of TNumber \<Rightarrow> JNum (Fin 0) | TString \<Rightarrow> JStr [] | TDate \<Rightarrow> JNull)
      else
        (case ty of
           TNumber \<Rightarrow> (if isNaN (parseFloat v) then JNum (Fin 0) else JNum (parseFloat v))
         | TString \<Rightarrow> JStr (trim (to_string P v))
         | TDate \<Rightarrow>
             (case date_time P v of
                None \<Rightarrow> JNull
              | Some t \<Rightarrow> JStr (hd (js_split (CHR ''T'') (to_iso_string P t))))))"

definition clean_row :: "platform \<Rightarrow> FieldInfo list \<Rightarrow> row \<Rightarrow> row" where
  "clean_row P fs r =
     foldl (\<lambda>cleanedRow f. set_prop cleanedRow (name f) (clean_value P (type f) (get r (name f))))
       [] fs"

definition clean :: "platform \<Rightarrow> DataProcessor \<Rightarrow> row list" where
  "clean P dp = map (clean_row P (fieldInfos dp)) (data dp)"

text \<open>
  What cleaning relies on from the platform's \<^verbatim>\<open>Date\<close>: a calendar date that
  \<^verbatim>\<open>toISOString\<close> prints is not empty and parses back, as a date, to a time value that
  prints as the same calendar date. \<open>date_stable\<close> says so for the date a cell denotes,
  \<open>dates_stable\<close> for every cell of a date field of a dataset.
\<close>

definition date_stable :: "platform \<Rightarrow> jsval \<Rightarrow> bool" where
  "date_stable P v =
     (case date_time P v of
        None \<Rightarrow> True
      | Some t \<Rightarrow>
          (let d = hd (js_split (CHR ''T'') (to_iso_string P t)) in
           d \<noteq> [] \<and>
           (case date_time P (JStr d) of
              None \<Rightarrow> False
            | Some t' \<Rightarrow> hd (js_split (CHR ''T'') (to_iso_string P t')) = d)))"

definition dates_stable :: "platform \<Rightarrow> DataProcessor \<Rightarrow> bool" where
  "dates_stable P dp =
     list_all (\<lambda>r. list_all (\<lambda>f. type f \<noteq> TDate \<or> date_stable P (get r (name f))) (fieldInfos dp))
       (data dp)"

subsection \<open>The engine's array sort\<close>

text \<open>
  \<^verbatim>\<open>Array.prototype.sort\<close> with a comparator is the engine's. ECMAScript (the sort
  order of \<^verbatim>\<open>SortIndexedProperties\<close>) fixes its result, stability included, only for a
  consistent comparator and leaves the order to the implementation otherwise.
  The model is V8's algorithm: a comparator result \<^verbatim>\<open>NaN\<close> counts as 0; the leading run
  (non-descending, or strictly descending and then reversed) is kept, and every further
  element is put in place by binary insertion. This is all V8 does for an array of fewer
  than 64 elements; for longer arrays V8 cuts the array into several such runs and merges
  them, which yields the same array whenever the comparator is consistent.
\<close>

definition sort_order :: "('a \<Rightarrow> 'a \<Rightarrow> jsnum) \<Rightarrow> 'a \<Rightarrow> 'a \<Rightarrow> jsnum" where
  "sort_order comparator x y = (if isNaN (comparator x y) then Fin 0 else comparator x y)"

definition before :: "('a \<Rightarrow> 'a \<Rightarrow> jsnum) \<Rightarrow> 'a \<Rightarrow> 'a \<Rightarrow> bool" where
  "before comparator x y = num_lt (sort_order comparator x y) (Fin 0)"

fun run_ascending :: "('a \<Rightarrow> 'a \<Rightarrow> jsnum) \<Rightarrow> 'a \<Rightarrow> 'a list \<Rightarrow> nat" where
  "run_ascending comparator previous [] = 0"
| "run_ascending comparator previous (current # rest) =
     (if before comparator current previous then 0
      else Suc (run_ascending comparator current rest))"

fun run_descending :: "('a \<Rightarrow> 'a \<Rightarrow> jsnum) \<Rightarrow> 'a \<Rightarrow> 'a list \<Rightarrow> nat" where
  "run_descending comparator previous [] = 0"
| "run_descending comparator previous (current # rest) =
     (if before comparator current previous then Suc (run_descending comparator current rest)
      else 0)"

fun count_and_make_run :: "('a \<Rightarrow> 'a \<Rightarrow> jsnum) \<Rightarrow> 'a list \<Rightarrow> 'a list \<times> 'a list" where
  "count_and_make_run comparator (x0 # x1 # rest) =
     (if before comparator x1 x0
      then (let n = 2 + run_descending comparator x1 rest
            in (rev (take n (x0 # x1 # rest)), drop n (x0 # x1 # rest)))
      else (let n = 2 + run_ascending comparator x1 rest
            in (take n (x0 # x1 # rest), drop n (x0 # x1 # rest))))"
| "count_and_make_run comparator xs = (xs, [])"

function binary_search :: "('a \<Rightarrow> 'a \<Rightarrow> jsnum) \<Rightarrow> 'a list \<Rightarrow> 'a \<Rightarrow> nat \<Rightarrow> nat \<Rightarrow> nat" where
  "binary_search comparator work pivot left right =
     (if left < right then
        (let mid = left + (right - left) div 2 in
         if before comparator pivot (work ! mid)
         then binary_search comparator work pivot left mid
         else binary_search comparator work pivot (mid + 1) right)
      else left)"
  by pat_completeness auto
termination
  by (relation "measure (\<lambda>(comparator, work, pivot, left, right). right - left)") auto

declare binary_search.simps [simp del]

definition binary_insert :: "('a \<Rightarrow> 'a \<Rightarrow> jsnum) \<Rightarrow> 'a list \<Rightarrow> 'a \<Rightarrow> 'a list" where
  "binary_insert comparator work pivot =
     (let left = binary_search comparator work pivot 0 (length work)
      in take left work @ pivot # drop left work)"

definition js_sort :: "('a \<Rightarrow> 'a \<Rightarrow> jsnum) \<Rightarrow> 'a list \<Rightarrow> 'a list" where
  "js_sort comparator xs =
     (case count_and_make_run comparator xs of
        (run, rest) \<Rightarrow> foldl (binary_insert comparator) run rest)"

text \<open>
  A consistent comparator in the sense of ECMAScript, on the elements of a list: ties are
  reflexive, symmetric and transitive, and so are ``before'' and ``after''.
\<close>

definition tie :: "('a \<Rightarrow> 'a \<Rightarrow> jsnum) \<Rightarrow> 'a \<Rightarrow> 'a \<Rightarrow> bool" where
  "tie comparator x y = (sort_order comparator x y = Fin 0)"

definition after :: "('a \<Rightarrow> 'a \<Rightarrow> jsnum) \<Rightarrow> 'a \<Rightarrow> 'a \<Rightarrow> bool" where
  "after comparator x y = num_lt (Fin 0) (sort_order comparator x y)"

definition all_triples :: "'a list \<Rightarrow> ('a \<Rightarrow> 'a \<Rightarrow> 'a \<Rightarrow> bool) \<Rightarrow> bool" where
  "all_triples xs Q = list_all (\<lambda>a. list_all (\<lambda>b. list_all (\<lambda>c. Q a b c) xs) xs) xs"

definition consistent_on :: "('a \<Rightarrow> 'a \<Rightarrow> jsnum) \<Rightarrow> 'a list \<Rightarrow> bool" where
  "consistent_on comparator xs =
     all_triples xs (\<lambda>a b c.
       tie comparator a a \<and>
       (tie comparator a b \<longrightarrow> tie comparator b a) \<and>
       (tie comparator a b \<and> tie comparator b c \<longrightarrow> tie comparator a c) \<and>
       (before comparator a b \<and> before comparator b c \<longrightarrow> before comparator a c) \<and>
       (after comparator a b \<and> after comparator b c \<longrightarrow> after comparator a c))"

text \<open>
  Under a consistent comparator ``\<open>x\<close> need not come after \<open>y\<close>'' is a total preorder on
  the elements, and a sorted array is one sorted with respect to it.
\<close>

definition le_by :: "('a \<Rightarrow> 'a \<Rightarrow> jsnum) \<Rightarrow> 'a \<Rightarrow> 'a \<Rightarrow> bool" where
  "le_by comparator x y = (\<not> before comparator y x)"

definition preorder_on :: "('a \<Rightarrow> 'a \<Rightarrow> jsnum) \<Rightarrow> 'a set \<Rightarrow> bool" where
  "preorder_on comparator S =
     ((\<forall>a\<in>S. \<forall>b\<in>S. \<forall>c\<in>S. le_by comparator a b \<and> le_by comparator b c \<longrightarrow> le_by comparator a c) \<and>
      (\<forall>a\<in>S. \<forall>b\<in>S. le_by comparator a b \<or> le_by comparator b a) \<and>
      (\<forall>a\<in>S. \<forall>b\<in>S. tie comparator a b = (le_by comparator a b \<and> le_by comparator b a)))"

definition sorted_by :: "('a \<Rightarrow> 'a \<Rightarrow> jsnum) \<Rightarrow> 'a list \<Rightarrow> bool" where
  "sorted_by comparator xs = sorted_wrt (le_by comparator) xs"

subsection \<open>sort\<close>

datatype direction = Asc | Desc

text \<open>A sort condition; its field is called \<open>sort_field\<close> here, next to the filter condition's.\<close>

record SortCondition =
  sort_field :: string
  direction :: direction

definition time_value :: "platform \<Rightarrow> jsval \<Rightarrow> jsnum" where
  "time_value P v = (case date_time P v of None \<Rightarrow> NaN | Some t \<Rightarrow> Fin (of_int t))"

definition field_comparison ::
  "platform \<Rightarrow> FieldInfo list \<Rightarrow> SortCondition \<Rightarrow> row \<Rightarrow> row \<Rightarrow> jsnum" where
  "field_comparison P fs condition a b =
     (let aValue = get a (sort_field condition);
          bValue = get b (sort_field condition);
          fld = find (\<lambda>f. name f = sort_field condition) fs
      in if map_option type fld = Some TNumber then num_sub (parseFloat aValue) (parseFloat bValue)
         else if map_option type fld = Some TDate then num_sub (time_value P aValue) (time_value P bValue)
         else Fin (of_int (locale_compare P (to_string P aValue) (to_string P bValue))))"

fun row_compare ::
  "platform \<Rightarrow> FieldInfo list \<Rightarrow> SortCondition list \<Rightarrow> row \<Rightarrow> row \<Rightarrow> jsnum" where
  "row_compare P fs [] a b = Fin 0"
| "row_compare P fs (condition # conditions) a b =
     (let comparison = field_comparison P fs condition a b in
      if comparison \<noteq> Fin 0
      then (if direction condition = Asc then comparison else num_neg comparison)
      else row_compare P fs conditions a b)"

definition sort_rows :: "platform \<Rightarrow> DataProcessor \<Rightarrow> row list \<Rightarrow> SortCondition list \<Rightarrow> row list" where
  "sort_rows P dp rows conditions = js_sort (row_compare P (fieldInfos dp) conditions) rows"

text \<open>Two rows tie on every condition: each per-field comparison yields zero.\<close>

definition all_conditions_tie ::
  "platform \<Rightarrow> DataProcessor \<Rightarrow> SortCondition list \<Rightarrow> row \<Rightarrow> row \<Rightarrow> bool" where
  "all_conditions_tie P dp conditions a b =
     list_all (\<lambda>c. field_comparison P (fieldInfos dp) c a b = Fin 0) conditions"

subsection \<open>getNumericStats\<close>

record NumericStats =
  stat_min :: jsnum
  stat_max :: jsnum
  stat_avg :: jsnum
  stat_median :: jsnum

definition getNumericStats :: "DataProcessor \<Rightarrow> string \<Rightarrow> NumericStats option" where
  "getNumericStats dp fieldName =
     (case find (\<lambda>f. name f = fieldName) (fieldInfos dp) of
        None \<Rightarrow> None
      | Some fld \<Rightarrow>
          if type fld \<noteq> TNumber then None
          else
            (let values = js_sort (\<lambda>a b. num_sub a b)
                            (filter (\<lambda>v. \<not> isNaN v)
                               (map (\<lambda>r. parseFloat (get r fieldName)) (data dp)))
             in if length values = 0 then None
                else Some
                  \<lparr> stat_min = values ! 0,
                    stat_max = values ! (length values - 1),
                    stat_avg = num_div (foldl (\<lambda>sum v. num_add sum v) (Fin 0) values)
                                 (jsnum_of_nat (length values)),
                    stat_median =
                      (if length values mod 2 = 0
                       then num_div (num_add (values ! (length values div 2 - 1))
                                             (values ! (length values div 2))) (Fin 2)
                       else values ! (length values div 2)) \<rparr>))"

subsection \<open>aggregate\<close>








text \<open>
  The reading of the aggregation in the words of its description: the cells of the value
  field, the sum of a list of numbers, the mean of the cells that parse, and the sum in
  which a cell that does not parse counts as 0.
\<close>

definition cells_of :: "string \<Rightarrow> row list \<Rightarrow> jsnum list" where
  "cells_of valueField rows = map (\<lambda>r. parseFloat (get r valueField)) rows"

primrec num_sum :: "jsnum list \<Rightarrow> jsnum" where
  "num_sum [] = Fin 0"
| "num_sum (x # xs) = num_add x (num_sum xs)"

definition mean_of_parsed :: "jsnum list \<Rightarrow> jsnum" where
  "mean_of_parsed xs =
     (let ps = filter (\<lambda>x. \<not> isNaN x) xs in
      if ps = [] then Fin 0 else num_div (num_sum ps) (jsnum_of_nat (length ps)))"


text \<open>
  The statistics in the words of their description: the cells of the field that parse, the
  first descriptor of that name being of type number, and the median of an ascending list.
\<close>

definition parsed_cells :: "string \<Rightarrow> row list \<Rightarrow> jsnum list" where
  "parsed_cells fieldName rows = filter (\<lambda>v. \<not> isNaN v) (cells_of fieldName rows)"

definition declared_number :: "FieldInfo list \<Rightarrow> string \<Rightarrow> bool" where
  "declared_number fs fieldName =
     (map_option type (find (\<lambda>f. name f = fieldName) fs) = Some TNumber)"

definition median_sorted :: "jsnum list \<Rightarrow> jsnum" where
  "median_sorted s =
     (if even (length s)
      then num_div (num_add (s ! (length s div 2 - 1)) (s ! (length s div 2))) (Fin 2)
      else s ! (length s div 2))"

subsection \<open>export\<close>

datatype export_format = Csv | Json

text \<open>
  The cell as the \<^verbatim>\<open>map\<close> callback of the CSV branch returns it (a string with a comma or a
  double quote is wrapped in double quotes, its quotes doubled), and the text
  \<^verbatim>\<open>Array.prototype.join\<close> writes for an element (nothing for \<^verbatim>\<open>null\<close> and \<^verbatim>\<open>undefined\<close>).
\<close>

definition csv_value :: "jsval \<Rightarrow> jsval" where
  "csv_value v =
     (case v of
        JStr s \<Rightarrow>
          if comma \<in> set s \<or> dquote \<in> set s
          then JStr (dquote # concat (map (\<lambda>c. if c = dquote then [dquote, dquote] else [c]) s) @ [dquote])
          else v
      | _ \<Rightarrow> v)"

definition join_text :: "platform \<Rightarrow> jsval \<Rightarrow> string" where
  "join_text P v = (if v = JUndefined \<or> v = JNull then [] else to_string P v)"

definition csv_line :: "platform \<Rightarrow> string list \<Rightarrow> row \<Rightarrow> string" where
  "csv_line P headers r =
     js_join comma (map (\<lambda>header. join_text P (csv_value (get r header))) headers)"

definition export :: "platform \<Rightarrow> row list \<Rightarrow> export_format \<Rightarrow> string" where
  "export P rows fmt =
     (case fmt of
        Json \<Rightarrow> json_stringify P rows
      | Csv \<Rightarrow>
          if length rows = 0 then []
          else
            (let headers = map fst (hd rows);
                 csvRows = js_join comma headers # map (csv_line P headers) rows
             in js_join newline csvRows))"

section \<open>Ingestion: parseCSV\<close>

text \<open>A cell of a line: trimmed, then every double quote removed.\<close>

definition parse_cell :: "string \<Rightarrow> string" where
  "parse_cell s = filter (\<lambda>c. c \<noteq> dquote) (trim s)"

definition parse_row :: "string list \<Rightarrow> string \<Rightarrow> row" where
  "parse_row headers line =
     (let values = map parse_cell (js_split comma line) in
      foldl (\<lambda>r (header, index).
               set_prop r header
                 (if index < length values \<and> values ! index \<noteq> [] then JStr (values ! index)
                  else JStr []))
        [] (zip headers [0..<length headers]))"

definition parseCSV :: "string \<Rightarrow> row list" where
  "parseCSV text =
     (let lines = js_split newline (trim text) in
      if length lines = 0 then []
      else (let headers = map parse_cell (js_split comma (hd lines))
            in map (parse_row headers) (tl lines)))"

text \<open>
  A text that passes through the CSV writer and reader unchanged: no comma, no double
  quote, no line feed, no white space at either end.
\<close>

definition plain :: "string \<Rightarrow> bool" where
  "plain s = (comma \<notin> set s \<and> dquote \<notin> set s \<and> newline \<notin> set s \<and> trim s = s)"

definition plain_cell :: "jsval \<Rightarrow> bool" where
  "plain_cell v = (case v of JStr s \<Rightarrow> plain s | _ \<Rightarrow> False)"

text \<open>
  The header of the CSV text is \<^verbatim>\<open>Object.keys(data[0])\<close>; the cells of a row under
  given keys, as a row; and a CSV text that neither starts nor ends with an empty line:
  there are two columns or more, or the only column has a name and the last row a cell.
\<close>

definition csv_headers :: "row list \<Rightarrow> string list" where
  "csv_headers rows = map fst (hd rows)"

definition no_empty_edge_line :: "row list \<Rightarrow> bool" where
  "no_empty_edge_line rows =
     (csv_headers rows \<noteq> [] \<and>
      (2 \<le> length (csv_headers rows) \<or>
       (hd (csv_headers rows) \<noteq> [] \<and> get (last rows) (hd (csv_headers rows)) \<noteq> JStr [])))"

definition round_trip_rows :: "row list" where
  "round_trip_rows =
     [[(''x'', JStr ''a''), (''y'', JStr ''b c'')], [(''y'', JStr []), (''x'', JStr ''d'')],
      [(''x'', JStr []), (''y'', JStr [])]]"


definition cells_under :: "string list \<Rightarrow> row \<Rightarrow> row" where
  "cells_under keys r = map (\<lambda>k. (k, get r k)) keys"

section \<open>Ingestion: field type inference\<close>
















section \<open>A reference instance of the platform\<close>

text \<open>
  An instance on which the functions above can be run: integers and short decimals print
  in decimal notation; a date is a number of milliseconds, an ISO calendar date or month
  (\<^verbatim>\<open>YYYY-MM-DD\<close>, \<^verbatim>\<open>YYYY-MM\<close>) or a date \<^verbatim>\<open>MM/DD/YYYY\<close>, the local time zone being
  UTC; strings compare by code unit; the random order is the reversed one; a built-in
  function prints as V8 prints it.
\<close>

function show_digits :: "int \<Rightarrow> string" where
  "show_digits n =
     (if n < 10 then [char_of (48 + n)]
      else show_digits (n div 10) @ [char_of (48 + n mod 10)])"
  by pat_completeness auto
termination
  by (relation "measure nat") auto

declare show_digits.simps [simp del]

definition pad_left :: "nat \<Rightarrow> string \<Rightarrow> string" where
  "pad_left w s = replicate (w - length s) (CHR ''0'') @ s"

fun frac_digits :: "nat \<Rightarrow> rat \<Rightarrow> string" where
  "frac_digits 0 r = []"
| "frac_digits (Suc k) r =
     (if r = 0 then []
      else char_of (48 + nat \<lfloor>r * 10\<rfloor>) # frac_digits k (r * 10 - of_int \<lfloor>r * 10\<rfloor>))"

definition show_rat :: "rat \<Rightarrow> string" where
  "show_rat q =
     (let ip = \<lfloor>\<bar>q\<bar>\<rfloor>; r = \<bar>q\<bar> - of_int ip
      in (if q < 0 then ''-'' else []) @ show_digits ip @
         (if r = 0 then [] else CHR ''.'' # frac_digits 17 r))"

definition days_from_civil :: "int \<Rightarrow> int \<Rightarrow> int \<Rightarrow> int" where
  "days_from_civil y m d =
     (let y' = (if m \<le> 2 then y - 1 else y);
          era = y' div 400;
          yoe = y' - era * 400;
          doy = (153 * (if 2 < m then m - 3 else m + 9) + 2) div 5 + d - 1;
          doe = yoe * 365 + yoe div 4 - yoe div 100 + doy
      in era * 146097 + doe - 719468)"

definition civil_from_days :: "int \<Rightarrow> int \<times> int \<times> int" where
  "civil_from_days days =
     (let z = days + 719468;
          era = z div 146097;
          doe = z - era * 146097;
          yoe = (doe - doe div 1460 + doe div 36524 - doe div 146096) div 365;
          doy = doe - (365 * yoe + yoe div 4 - yoe div 100);
          mp = (5 * doy + 2) div 153;
          d = doy - (153 * mp + 2) div 5 + 1;
          m = (if mp < 10 then mp + 3 else mp - 9)
      in ((if m \<le> 2 then yoe + era * 400 + 1 else yoe + era * 400), m, d))"

definition show_year :: "int \<Rightarrow> string" where
  "show_year y =
     (if 0 \<le> y \<and> y \<le> 9999 then pad_left 4 (show_digits y)
      else (if y < 0 then ''-'' else ''+'') @ pad_left 6 (show_digits \<bar>y\<bar>))"

definition show2 :: "int \<Rightarrow> string" where
  "show2 n = pad_left 2 (show_digits n)"

definition ref_to_iso_string :: "int \<Rightarrow> string" where
  "ref_to_iso_string t =
     (let ms = t mod 86400000 in
      case civil_from_days (t div 86400000) of
        (y, m, d) \<Rightarrow>
          show_year y @ ''-'' @ show2 m @ ''-'' @ show2 d @ ''T'' @
          show2 (ms div 3600000) @ '':'' @ show2 (ms div 60000 mod 60) @ '':'' @
          show2 (ms div 1000 mod 60) @ ''.'' @ pad_left 3 (show_digits (ms mod 1000)) @ ''Z'')"

definition days_in_month :: "int \<Rightarrow> int \<Rightarrow> int" where
  "days_in_month y m =
     (if m = 2 then (if y mod 4 = 0 \<and> (y mod 100 \<noteq> 0 \<or> y mod 400 = 0) then 29 else 28)
      else if m = 4 \<or> m = 6 \<or> m = 9 \<or> m = 11 then 30 else 31)"

definition parse_iso_date :: "string \<Rightarrow> int option" where
  "parse_iso_date s =
     (if length s = 10 \<and> list_all is_digit (take 4 s) \<and> s ! 4 = CHR ''-'' \<and>
         list_all is_digit (take 2 (drop 5 s)) \<and> s ! 7 = CHR ''-'' \<and>
         list_all is_digit (drop 8 s)
      then
        (let y = digits_val (take 4 s);
             m = digits_val (take 2 (drop 5 s));
             d = digits_val (drop 8 s)
         in if 1 \<le> m \<and> m \<le> 12 \<and> 1 \<le> d \<and> d \<le> days_in_month y m
            then Some (days_from_civil y m d * 86400000) else None)
      else None)"

definition parse_iso_month :: "string \<Rightarrow> int option" where
  "parse_iso_month s =
     (if length s = 7 \<and> list_all is_digit (take 4 s) \<and> s ! 4 = CHR ''-'' \<and>
         list_all is_digit (drop 5 s)
      then
        (let y = digits_val (take 4 s);
             m = digits_val (drop 5 s)
         in if 1 \<le> m \<and> m \<le> 12 then Some (days_from_civil y m 1 * 86400000) else None)
      else None)"

definition parse_slash_date :: "string \<Rightarrow> int option" where
  "parse_slash_date s =
     (if length s = 10 \<and> list_all is_digit (take 2 s) \<and> s ! 2 = CHR ''/'' \<and>
         list_all is_digit (take 2 (drop 3 s)) \<and> s ! 5 = CHR ''/'' \<and>
         list_all is_digit (drop 6 s)
      then
        (let m = digits_val (take 2 s);
             d = digits_val (take 2 (drop 3 s));
             y = digits_val (drop 6 s)
         in if 1 \<le> m \<and> m \<le> 12 \<and> 1 \<le> d \<and> d \<le> days_in_month y m
            then Some (days_from_civil y m d * 86400000) else None)
      else None)"

definition ref_date_time :: "jsval \<Rightarrow> int option" where
  "ref_date_time v =
     (case v of
        JUndefined \<Rightarrow> None
      | JNull \<Rightarrow> Some 0
      | JBool b \<Rightarrow> Some (if b then 1 else 0)
      | JNum (Fin q) \<Rightarrow>
          (if \<bar>q\<bar> \<le> 8640000000000000 then Some (if 0 \<le> q then \<lfloor>q\<rfloor> else - \<lfloor>- q\<rfloor>) else None)
      | JNum _ \<Rightarrow> None
      | JStr s \<Rightarrow>
          (case parse_iso_date s of
             Some t \<Rightarrow> Some t
           | None \<Rightarrow>
               (case parse_iso_month s of
                  Some t \<Rightarrow> Some t
                | None \<Rightarrow> parse_slash_date s))
      | JMember m \<Rightarrow> None)"

definition ref_member_to_string :: "string \<Rightarrow> string" where
  "ref_member_to_string m =
     (if m = ''__proto__'' then ''[object Object]''
      else ''function '' @ (if m = ''constructor'' then ''Object'' else m) @ ''() { [native code] }'')"

fun code_unit_compare :: "string \<Rightarrow> string \<Rightarrow> int" where
  "code_unit_compare [] [] = 0"
| "code_unit_compare [] (b # bs) = - 1"
| "code_unit_compare (a # as) [] = 1"
| "code_unit_compare (a # as) (b # bs) =
     (if (of_char a :: nat) < of_char b then - 1
      else if (of_char b :: nat) < of_char a then 1
      else code_unit_compare as bs)"

definition hex_digit :: "nat \<Rightarrow> char" where
  "hex_digit n = (if n < 10 then char_of (48 + n) else char_of (87 + n))"

definition json_char :: "char \<Rightarrow> string" where
  "json_char c =
     (let n = (of_char c :: nat) in
      if c = dquote then [CHR 0x5C, dquote]
      else if n = 92 then [CHR 0x5C, CHR 0x5C]
      else if n = 8 then [CHR 0x5C, CHR ''b'']
      else if n = 9 then [CHR 0x5C, CHR ''t'']
      else if n = 10 then [CHR 0x5C, CHR ''n'']
      else if n = 12 then [CHR 0x5C, CHR ''f'']
      else if n = 13 then [CHR 0x5C, CHR ''r'']
      else if n < 32 then [CHR 0x5C, CHR ''u'', CHR ''0'', CHR ''0'', hex_digit (n div 16), hex_digit (n mod 16)]
      else [c])"

definition json_quote :: "string \<Rightarrow> string" where
  "json_quote s = dquote # concat (map json_char s) @ [dquote]"

definition json_value :: "jsval \<Rightarrow> string" where
  "json_value v =
     (case v of
        JNum (Fin q) \<Rightarrow> show_rat q
      | JBool b \<Rightarrow> (if b then ''true'' else ''false'')
      | JStr s \<Rightarrow> json_quote s
      | JMember m \<Rightarrow> ''{}''
      | _ \<Rightarrow> ''null'')"

definition json_skipped :: "jsval \<Rightarrow> bool" where
  "json_skipped v =
     (case v of JUndefined \<Rightarrow> True | JMember m \<Rightarrow> m \<noteq> ''__proto__'' | _ \<Rightarrow> False)"

definition json_object :: "row \<Rightarrow> string" where
  "json_object r =
     (let props = filter (\<lambda>(k, v). \<not> json_skipped v) r in
      if props = [] then ''{}''
      else ''{'' @ newline #
           concat (map (\<lambda>i. ''    '' @ json_quote (fst (props ! i)) @ '': '' @
                              json_value (snd (props ! i)) @
                              (if Suc i < length props then '','' else []) @ [newline])
                     [0..<length props]) @
           ''  }'')"

definition ref_json_stringify :: "row list \<Rightarrow> string" where
  "ref_json_stringify rows =
     (if rows = [] then ''[]''
      else ''['' @ newline #
           concat (map (\<lambda>i. ''  '' @ json_object (rows ! i) @
                              (if Suc i < length rows then '','' else []) @ [newline])
                     [0..<length rows]) @
           '']'')"

definition ref_platform :: platform where
  "ref_platform =
     \<lparr> number_to_string = show_rat,
       member_to_string = ref_member_to_string,
       date_time = ref_date_time,
       to_iso_string = ref_to_iso_string,
       locale_compare = code_unit_compare,
       random_order = rev,
       json_stringify = ref_json_stringify \<rparr>"

text \<open>Two small datasets with a numeric column \<^verbatim>\<open>n\<close>, used to run the sort.\<close>

definition numeric_field :: "FieldInfo list" where
  "numeric_field = [\<lparr>name = ''n'', type = TNumber\<rparr>]"

definition by_n_ascending :: "SortCondition list" where
  "by_n_ascending = [\<lparr>sort_field = ''n'', direction = Asc\<rparr>]"

definition labelled :: "jsval \<Rightarrow> rat \<Rightarrow> row" where
  "labelled n i = [(''n'', n), (''id'', JNum (Fin i))]"

definition unparsable_rows :: "row list" where
  "unparsable_rows =
     [labelled (JStr ''abc'') 0, labelled (JStr ''abc'') 1, labelled (JNum (Fin 1)) 2,
      labelled (JNum (Fin 0)) 3, labelled (JStr ''abc'') 4, labelled (JNum (Fin 0)) 5,
      labelled (JNum (Fin 0)) 6]"

definition parsable_rows :: "row list" where
  "parsable_rows =
     [labelled (JNum (Fin 2)) 0, labelled (JNum (Fin 1)) 1, labelled (JNum (Fin 2)) 2,
      labelled (JNum (Fin 1)) 3]"

definition measurements :: DataProcessor where
  "measurements =
     \<lparr>data = [[(''v'', JNum (Fin 3))], [(''v'', JStr ''1'')], [(''v'', JNum (Fin 4))],
              [(''v'', JNum (Fin 2))], [(''v'', JStr ''x'')], [(''v'', JStr ''10'')]],
      fieldInfos = [\<lparr>name = ''v'', type = TNumber\<rparr>]\<rparr>"


section \<open>Properties\<close>

subsection \<open>Plain objects\<close>


lemma set_prop_update: "k \<noteq> ''__proto__'' \<Longrightarrow> set_prop obj k v = AList.update k v obj"
  by (simp add: set_prop_def)

lemma update_append: "k \<notin> fst ` set al \<Longrightarrow> AList.update k v al = al @ [(k, v)]"
  by (induction al) auto

text \<open>
  A run of assignments to an object without an own \<^verbatim>\<open>__proto__\<close> writes the keys other than
  \<^verbatim>\<open>__proto__\<close>; if these are distinct and new, it appends them in order.
\<close>

lemma fold_set_prop:
  "map_of acc ''__proto__'' = None \<Longrightarrow>
   foldl (\<lambda>obj x. set_prop obj (key x) (g x)) acc xs =
   foldl (\<lambda>obj x. AList.update (key x) (g x) obj) acc (filter (\<lambda>x. key x \<noteq> ''__proto__'') xs)"
proof (induction xs arbitrary: acc)
  case Nil
  then show ?case by simp
next
  case (Cons x xs)
  show ?case
  proof (cases "key x = ''__proto__''")
    case True
    with Cons.prems have "set_prop acc (key x) (g x) = acc"
      by (simp add: set_prop_def)
    with True Cons.IH [OF Cons.prems] show ?thesis by simp
  next
    case False
    with Cons.prems have "map_of (AList.update (key x) (g x) acc) ''__proto__'' = None"
      by (simp add: update_conv')
    from Cons.IH [OF this] False show ?thesis
      by (simp add: set_prop_update)
  qed
qed

lemma fold_update_fresh:
  "distinct (map key xs) \<Longrightarrow> key ` set xs \<inter> fst ` set acc = {} \<Longrightarrow>
   foldl (\<lambda>obj x. AList.update (key x) (g x) obj) acc xs = acc @ map (\<lambda>x. (key x, g x)) xs"
proof (induction xs arbitrary: acc)
  case Nil
  then show ?case by simp
next
  case (Cons x xs)
  from Cons.prems have fresh: "key x \<notin> fst ` set acc" by auto
  then have step: "AList.update (key x) (g x) acc = acc @ [(key x, g x)]"
    by (rule update_append)
  from Cons.prems have d: "distinct (map key xs)" and
    i: "key ` set xs \<inter> fst ` set (acc @ [(key x, g x)]) = {}" by auto
  from Cons.IH [OF d i] show ?case by (simp add: step)
qed


lemma fold_update_distinct:
  "distinct (map fst acc) \<Longrightarrow>
   distinct (map fst (foldl (\<lambda>obj x. AList.update (key x) (g x) obj) acc xs))"
  by (induction xs arbitrary: acc) (auto simp: distinct_update)

subsection \<open>Grouping\<close>

text \<open>
  C1. groupBy keys a row by the string form of its cell and uses the key \<^verbatim>\<open>Unknown\<close> for a
  missing cell only. The code tests the cell with \<^verbatim>\<open>||\<close>, so a present cell that is falsy
  is keyed \<^verbatim>\<open>Unknown\<close> as well: the single row \<^verbatim>\<open>{a: 0}\<close>, whose cell is the number 0
  and not missing, lands in the group \<^verbatim>\<open>Unknown\<close> instead of the group \<^verbatim>\<open>0\<close>.
\<close>

theorem groupBy_zero_cell_unknown:
  "\<not> is_missing (JNum (Fin 0)) \<and>
   groupBy P \<lparr>data = [[(''a'', JNum (Fin 0))]], fieldInfos = fs\<rparr> ''a'' =
     Inr [(''Unknown'', [[(''a'', JNum (Fin 0))]])]"
  by (simp add: is_missing_def groupBy_def groupBy_step_def group_key_def get_def truthy_def
      to_string_def set_prop_def inherited_def prototype_members_def)

subsection \<open>Sampling\<close>

text \<open>
  C3. For a size below the row count, sample with method \<^verbatim>\<open>last\<close> is to return the last
  \<open>n\<close> rows, a slice of length \<open>n\<close>. The code takes \<^verbatim>\<open>slice(-size)\<close>, which for size 0 is
  \<^verbatim>\<open>slice(0)\<close>, the whole array: on a one-row dataset \<^verbatim>\<open>sample(0, 'last')\<close> returns the
  row instead of the empty slice, while \<^verbatim>\<open>sample(0, 'first')\<close> returns the empty slice.
\<close>

theorem sample_last_zero_returns_all:
  "sample P \<lparr>data = [r], fieldInfos = fs\<rparr> 0 Last = [r] \<and>
   sample P \<lparr>data = [r], fieldInfos = fs\<rparr> 0 First = []"
  by (simp add: sample_def js_slice_def)

subsection \<open>Filtering\<close>

lemma filter_rows_append:
  "filter_rows P dp (c1 @ c2) =
     filter (\<lambda>r. list_all (condition_holds P r) c2) (filter_rows P dp c1)"
  by (simp add: filter_rows_def conj_commute)

text \<open>
  C6. Filter monotonicity: every row that passes the conditions \<open>c1 @ c2\<close> passes the
  conditions \<open>c1\<close>; the result for \<open>c1 @ c2\<close> is the result for \<open>c1\<close> filtered once more.
\<close>

theorem filter_monotone:
  "set (filter_rows P dp (c1 @ c2)) \<subseteq> set (filter_rows P dp c1)"
  by (simp add: filter_rows_append)

theorem filter_monotone_witness:
  "set (filter_rows ref_platform
          \<lparr>data = [[(''v'', JStr ''5'')], [(''v'', JStr ''12'')], [(''v'', JStr ''8'')]], fieldInfos = []\<rparr>
          ([\<lparr>field = ''v'', operator = ''between'', value = JStr ''1'', value2 = JStr ''10''\<rparr>] @
           [\<lparr>field = ''v'', operator = ''greater'', value = JNum (Fin 6), value2 = JUndefined\<rparr>]))
   \<subseteq> set (filter_rows ref_platform
          \<lparr>data = [[(''v'', JStr ''5'')], [(''v'', JStr ''12'')], [(''v'', JStr ''8'')]], fieldInfos = []\<rparr>
          [\<lparr>field = ''v'', operator = ''between'', value = JStr ''1'', value2 = JStr ''10''\<rparr>])"
  by (rule filter_monotone)

subsection \<open>Cleaning\<close>

text \<open>
  A cleaned row is written field by field; a field named \<^verbatim>\<open>__proto__\<close> leaves no key.
\<close>

lemma clean_row_updates:
  "clean_row P fs r =
     foldl (\<lambda>cleanedRow f. AList.update (name f) (clean_value P (type f) (get r (name f))) cleanedRow)
       [] (filter (\<lambda>f. name f \<noteq> ''__proto__'') fs)"
  unfolding clean_row_def by (rule fold_set_prop) simp


lemma clean_row_distinct: "distinct (map fst (clean_row P fs r))"
  by (simp add: clean_row_updates fold_update_distinct)




subsection \<open>Aggregation\<close>

lemma num_add_assoc: "num_add (num_add a b) c = num_add a (num_add b c)"
  by (cases a; cases b; cases c) (simp_all add: add.assoc)

lemma num_add_zero_left: "num_add (Fin 0) a = a"
  by (cases a) simp_all

lemma num_add_zero_right: "num_add a (Fin 0) = a"
  by (cases a) simp_all

lemma foldl_num_add: "foldl (\<lambda>s v. num_add s v) a xs = num_add a (num_sum xs)"
  by (induction xs arbitrary: a) (simp_all add: num_add_zero_right num_add_assoc)

lemma reduce_sum_eq: "foldl (\<lambda>s v. num_add s v) (Fin 0) xs = num_sum xs"
  by (simp add: foldl_num_add num_add_zero_left)

















subsection \<open>Field type inference\<close>
















subsection \<open>Idempotence of cleaning\<close>

lemma drop_end_prefix: "\<exists>z. u = rev (dropWhile Q (rev u)) @ z"
  by (metis rev_append rev_rev_ident takeWhile_dropWhile_id)

lemma trim_fixed: "s = [] \<or> (\<not> is_space (hd s) \<and> \<not> is_space (last s)) \<Longrightarrow> trim s = s"
proof (cases "s = []")
  case True then show ?thesis by (simp add: trim_def)
next
  case False
  assume "s = [] \<or> (\<not> is_space (hd s) \<and> \<not> is_space (last s))"
  with False have h: "\<not> is_space (hd s)" and l: "\<not> is_space (last s)" by auto
  from False h have 1: "dropWhile is_space s = s" by (cases s) auto
  from False l have 2: "dropWhile is_space (rev s) = rev s" by (cases "rev s") (auto simp: last_rev hd_rev)
  show ?thesis by (simp add: trim_def 1 2)
qed

lemma trim_ends: "trim s = [] \<or> (\<not> is_space (hd (trim s)) \<and> \<not> is_space (last (trim s)))"
proof (cases "trim s = []")
  case True then show ?thesis by simp
next
  case False
  let ?u = "dropWhile is_space s"
  let ?d = "dropWhile is_space (rev ?u)"
  from False have dne: "?d \<noteq> []" by (simp add: trim_def)
  then have "\<not> is_space (hd ?d)" by (rule hd_dropWhile)
  then have l: "\<not> is_space (last (trim s))" using dne by (simp add: trim_def last_rev)
  obtain z where u: "?u = rev ?d @ z" using drop_end_prefix [of ?u is_space] by blast
  have une: "?u \<noteq> []"
  proof
    assume "?u = []"
    then have "?d = []" by (simp only: rev.simps dropWhile.simps)
    with dne show False ..
  qed
  then have "\<not> is_space (hd ?u)" by (rule hd_dropWhile)
  moreover from u dne have "hd ?u = hd (rev ?d)" by (metis hd_append2 rev_is_Nil_conv)
  ultimately have "\<not> is_space (hd (trim s))" by (simp add: trim_def)
  with l show ?thesis by simp
qed

lemma trim_idem: "trim (trim s) = trim s"
  by (rule trim_fixed) (rule trim_ends)
lemma clean_value_idem:
  assumes "ty \<noteq> TDate \<or> date_stable P v"
  shows "clean_value P ty (clean_value P ty v) = clean_value P ty v"
proof (cases ty)
  case TString
  then show ?thesis
    by (simp add: clean_value_def is_missing_def to_string_def trim_idem)
next
  case TNumber
  then show ?thesis
    by (cases "parseFloat v") (simp_all add: clean_value_def is_missing_def parseFloat_def)
next
  case TDate
  with assms have st: "date_stable P v" by simp
  show ?thesis
  proof (cases "is_missing v \<or> date_time P v = None")
    case True
    with TDate show ?thesis
      by (auto simp: clean_value_def is_missing_def)
  next
    case False
    then obtain t where t: "date_time P v = Some t" and nm: "\<not> is_missing v" by auto
    let ?d = "hd (js_split (CHR ''T'') (to_iso_string P t))"
    from st t obtain t' where d: "?d \<noteq> []" and t': "date_time P (JStr ?d) = Some t'"
      and e: "hd (js_split (CHR ''T'') (to_iso_string P t')) = ?d"
      by (auto simp: date_stable_def Let_def split: option.splits)
    from TDate t nm have 1: "clean_value P ty v = JStr ?d"
      by (simp add: clean_value_def)
    from TDate d t' e have "clean_value P ty (JStr ?d) = JStr ?d"
      by (simp add: clean_value_def is_missing_def)
    with 1 show ?thesis by simp
  qed
qed

lemma alist_rebuild:
  "distinct (map fst xs) \<Longrightarrow> map (\<lambda>k. (k, the (map_of xs k))) (map fst xs) = xs"
proof (induction xs)
  case Nil
  then show ?case by simp
next
  case (Cons x xs)
  have "map (\<lambda>k. (k, the (map_of (x # xs) k))) (map fst xs) =
        map (\<lambda>k. (k, the (map_of xs k))) (map fst xs)"
  proof (rule map_cong [OF refl])
    fix k
    assume "k \<in> set (map fst xs)"
    with Cons.prems have "k \<noteq> fst x" by (cases x) force
    then show "(k, the (map_of (x # xs) k)) = (k, the (map_of xs k))"
      by (cases x) simp
  qed
  with Cons show ?case by (cases x) simp
qed

lemma find_append_split:
  "find Q (xs @ ys) = (case find Q xs of None \<Rightarrow> find Q ys | Some x \<Rightarrow> Some x)"
  by (induction xs) simp_all

lemma alist_eqI:
  assumes "distinct (map fst xs)" "distinct (map fst ys)"
    and "map fst xs = map fst ys" and "map_of xs = map_of ys"
  shows "xs = ys"
proof -
  have "xs = map (\<lambda>k. (k, the (map_of xs k))) (map fst xs)"
    using assms(1) by (simp only: alist_rebuild)
  also have "\<dots> = map (\<lambda>k. (k, the (map_of ys k))) (map fst ys)"
    using assms(3,4) by simp
  also have "\<dots> = ys"
    using assms(2) by (simp only: alist_rebuild)
  finally show ?thesis .
qed

lemma fold_update_lookup:
  "map_of (foldl (\<lambda>obj x. AList.update (key x) (g x) obj) acc xs) k =
     (case find (\<lambda>x. key x = k) (rev xs) of
        None \<Rightarrow> map_of acc k
      | Some x \<Rightarrow> Some (g x))"
proof (induction xs arbitrary: acc)
  case Nil
  then show ?case by simp
next
  case (Cons x xs)
  show ?case
    by (simp add: Cons.IH find_append_split update_conv' split: option.splits)
qed

lemma fold_update_key_list:
  "map fst acc = map fst acc' \<Longrightarrow>
   map fst (foldl (\<lambda>obj x. AList.update (key x) (g x) obj) acc xs) =
   map fst (foldl (\<lambda>obj x. AList.update (key x) (h x) obj) acc' xs)"
proof (induction xs arbitrary: acc acc')
  case Nil
  then show ?case by simp
next
  case (Cons x xs)
  from Cons.prems have "map fst (AList.update (key x) (g x) acc) = map fst (AList.update (key x) (h x) acc')"
    by (simp add: update_keys)
  from Cons.IH [OF this] show ?case by simp
qed

lemma find_in: "find Q xs = Some f \<Longrightarrow> f \<in> set xs \<and> Q f"
  by (induction xs) (auto split: if_splits)

lemma find_rev_in: "find Q (rev fs) = Some f \<Longrightarrow> f \<in> set fs \<and> Q f"
  using find_in [of Q "rev fs" f] by simp

lemma clean_row_idem:
  assumes "list_all (\<lambda>f. type f \<noteq> TDate \<or> date_stable P (get r (name f))) fs"
  shows "clean_row P fs (clean_row P fs r) = clean_row P fs r"
proof (rule alist_eqI)
  let ?fs = "filter (\<lambda>f. name f \<noteq> ''__proto__'') fs"
  show "distinct (map fst (clean_row P fs (clean_row P fs r)))" by (rule clean_row_distinct)
  show "distinct (map fst (clean_row P fs r))" by (rule clean_row_distinct)
  show "map fst (clean_row P fs (clean_row P fs r)) = map fst (clean_row P fs r)"
    unfolding clean_row_updates [of P fs] by (rule fold_update_key_list) simp
  show "map_of (clean_row P fs (clean_row P fs r)) = map_of (clean_row P fs r)"
  proof
    fix k
    have look: "\<And>r. map_of (clean_row P fs r) k =
        (case find (\<lambda>f. name f = k) (rev ?fs) of
           None \<Rightarrow> None
         | Some f \<Rightarrow> Some (clean_value P (type f) (get r (name f))))"
      by (simp add: clean_row_updates fold_update_lookup split: option.splits)
    show "map_of (clean_row P fs (clean_row P fs r)) k = map_of (clean_row P fs r) k"
    proof (cases "find (\<lambda>f. name f = k) (rev ?fs)")
      case None
      then show ?thesis by (simp add: look)
    next
      case (Some f)
      then have f: "f \<in> set fs" and k: "name f = k" using find_rev_in by fastforce+
      from Some have r': "map_of (clean_row P fs r) k = Some (clean_value P (type f) (get r (name f)))"
        by (simp add: look)
      then have g: "get (clean_row P fs r) (name f) = clean_value P (type f) (get r (name f))"
        using k by (simp add: get_def)
      from assms f have "type f \<noteq> TDate \<or> date_stable P (get r (name f))"
        by (simp add: list_all_iff)
      then have "clean_value P (type f) (clean_value P (type f) (get r (name f))) =
                 clean_value P (type f) (get r (name f))"
        by (rule clean_value_idem)
      with Some g show ?thesis
        by (simp add: look)
    qed
  qed
qed

text \<open>
  C5. Cleaning is idempotent: a processor built over the cleaned rows and the same field
  descriptors returns, on cleaning, the cleaned rows again. For a date field this rests on
  the platform's \<^verbatim>\<open>Date\<close> reading back the calendar dates it prints, at the dates the
  dataset holds (\<open>dates_stable\<close>); ECMAScript requires this of every engine.
\<close>

theorem clean_idempotent:
  assumes "dates_stable P dp"
  shows "clean P \<lparr>data = clean P dp, fieldInfos = fieldInfos dp\<rparr> = clean P dp"
proof -
  have "map (clean_row P (fieldInfos dp)) (map (clean_row P (fieldInfos dp)) (data dp)) =
        map (clean_row P (fieldInfos dp)) (data dp)"
    using assms by (auto simp: dates_stable_def list_all_iff intro!: clean_row_idem)
  then show ?thesis by (simp add: clean_def)
qed

theorem clean_idempotent_witness:
  "dates_stable ref_platform
     \<lparr>data = [[(''a'', JStr '' x ''), (''n'', JStr ''5''), (''d'', JStr ''2024-01-15'')],
              [(''a'', JStr ''y''), (''n'', JStr ''abc''), (''d'', JNum (Fin 1705312800123))],
              [(''d'', JStr ''soon''), (''zz'', JBool True)]],
      fieldInfos = [\<lparr>name = ''n'', type = TNumber\<rparr>, \<lparr>name = ''a'', type = TString\<rparr>,
                    \<lparr>name = ''d'', type = TDate\<rparr>]\<rparr> \<and>
   clean ref_platform
     \<lparr>data = clean ref_platform
        \<lparr>data = [[(''a'', JStr '' x ''), (''n'', JStr ''5''), (''d'', JStr ''2024-01-15'')],
                 [(''a'', JStr ''y''), (''n'', JStr ''abc''), (''d'', JNum (Fin 1705312800123))],
                 [(''d'', JStr ''soon''), (''zz'', JBool True)]],
         fieldInfos = [\<lparr>name = ''n'', type = TNumber\<rparr>, \<lparr>name = ''a'', type = TString\<rparr>,
                       \<lparr>name = ''d'', type = TDate\<rparr>]\<rparr>,
      fieldInfos = [\<lparr>name = ''n'', type = TNumber\<rparr>, \<lparr>name = ''a'', type = TString\<rparr>,
                    \<lparr>name = ''d'', type = TDate\<rparr>]\<rparr> =
   [[(''n'', JNum (Fin 5)), (''a'', JStr ''x''), (''d'', JStr ''2024-01-15'')],
    [(''n'', JNum (Fin 0)), (''a'', JStr ''y''), (''d'', JStr ''2024-01-15'')],
    [(''n'', JNum (Fin 0)), (''a'', JStr []), (''d'', JNull)]]"
proof -
  have h: "dates_stable ref_platform
     \<lparr>data = [[(''a'', JStr '' x ''), (''n'', JStr ''5''), (''d'', JStr ''2024-01-15'')],
              [(''a'', JStr ''y''), (''n'', JStr ''abc''), (''d'', JNum (Fin 1705312800123))],
              [(''d'', JStr ''soon''), (''zz'', JBool True)]],
      fieldInfos = [\<lparr>name = ''n'', type = TNumber\<rparr>, \<lparr>name = ''a'', type = TString\<rparr>,
                    \<lparr>name = ''d'', type = TDate\<rparr>]\<rparr>"
    by code_simp
  have c: "clean ref_platform
        \<lparr>data = [[(''a'', JStr '' x ''), (''n'', JStr ''5''), (''d'', JStr ''2024-01-15'')],
                 [(''a'', JStr ''y''), (''n'', JStr ''abc''), (''d'', JNum (Fin 1705312800123))],
                 [(''d'', JStr ''soon''), (''zz'', JBool True)]],
         fieldInfos = [\<lparr>name = ''n'', type = TNumber\<rparr>, \<lparr>name = ''a'', type = TString\<rparr>,
                       \<lparr>name = ''d'', type = TDate\<rparr>]\<rparr> =
   [[(''n'', JNum (Fin 5)), (''a'', JStr ''x''), (''d'', JStr ''2024-01-15'')],
    [(''n'', JNum (Fin 0)), (''a'', JStr ''y''), (''d'', JStr ''2024-01-15'')],
    [(''n'', JNum (Fin 0)), (''a'', JStr []), (''d'', JNull)]]"
    by code_simp
  from clean_idempotent [OF h] h c show ?thesis
    by simp
qed

subsection \<open>The array sort under a consistent comparator\<close>

lemma order_trichotomy:
  "(before cmp a b \<and> \<not> tie cmp a b \<and> \<not> after cmp a b) \<or>
   (\<not> before cmp a b \<and> tie cmp a b \<and> \<not> after cmp a b) \<or>
   (\<not> before cmp a b \<and> \<not> tie cmp a b \<and> after cmp a b)"
  by (cases "cmp a b") (auto simp: before_def tie_def after_def sort_order_def)

lemma all_triplesD:
  "all_triples xs Q \<Longrightarrow> a \<in> set xs \<Longrightarrow> b \<in> set xs \<Longrightarrow> c \<in> set xs \<Longrightarrow> Q a b c"
  unfolding all_triples_def list_all_iff by blast

lemma consistent_onD:
  assumes "consistent_on cmp xs" "a \<in> set xs" "b \<in> set xs" "c \<in> set xs"
  shows "tie cmp a a"
    and "tie cmp a b \<Longrightarrow> tie cmp b a"
    and "tie cmp a b \<Longrightarrow> tie cmp b c \<Longrightarrow> tie cmp a c"
    and "before cmp a b \<Longrightarrow> before cmp b c \<Longrightarrow> before cmp a c"
    and "after cmp a b \<Longrightarrow> after cmp b c \<Longrightarrow> after cmp a c"
proof -
  have 3: "tie cmp a a \<and>
       (tie cmp a b \<longrightarrow> tie cmp b a) \<and>
       (tie cmp a b \<and> tie cmp b c \<longrightarrow> tie cmp a c) \<and>
       (before cmp a b \<and> before cmp b c \<longrightarrow> before cmp a c) \<and>
       (after cmp a b \<and> after cmp b c \<longrightarrow> after cmp a c)"
    using all_triplesD [OF assms(1) [unfolded consistent_on_def] assms(2) assms(3) assms(4)] .
  from 3 show "tie cmp a a" by blast
  from 3 show "tie cmp a b \<Longrightarrow> tie cmp b a" by blast
  from 3 show "tie cmp a b \<Longrightarrow> tie cmp b c \<Longrightarrow> tie cmp a c" by blast
  from 3 show "before cmp a b \<Longrightarrow> before cmp b c \<Longrightarrow> before cmp a c" by blast
  from 3 show "after cmp a b \<Longrightarrow> after cmp b c \<Longrightarrow> after cmp a c" by blast
qed

lemma before_iff_after:
  assumes c: "consistent_on cmp xs" and a: "a \<in> set xs" and b: "b \<in> set xs"
  shows "before cmp a b = after cmp b a"
proof
  assume ab: "before cmp a b"
  have "\<not> tie cmp b a"
    using consistent_onD(2) [OF c b a a] ab order_trichotomy [of cmp a b] by blast
  moreover have "\<not> before cmp b a"
    using consistent_onD(4) [OF c a b a] consistent_onD(1) [OF c a a a] ab
      order_trichotomy [of cmp a a] by blast
  ultimately show "after cmp b a"
    using order_trichotomy [of cmp b a] by blast
next
  assume ba: "after cmp b a"
  have "\<not> tie cmp a b"
    using consistent_onD(2) [OF c a b b] ba order_trichotomy [of cmp b a] by blast
  moreover have "\<not> after cmp a b"
    using consistent_onD(5) [OF c b a b] consistent_onD(1) [OF c b b b] ba
      order_trichotomy [of cmp b b] by blast
  ultimately show "before cmp a b"
    using order_trichotomy [of cmp a b] by blast
qed

lemma le_by_cases:
  assumes c: "consistent_on cmp xs" and a: "a \<in> set xs" and b: "b \<in> set xs"
  shows "le_by cmp a b = (before cmp a b \<or> tie cmp a b)"
  using before_iff_after [OF c b a] order_trichotomy [of cmp a b]
  by (auto simp: le_by_def)

lemma tie_before:
  assumes c: "consistent_on cmp xs" and a: "a \<in> set xs" and b: "b \<in> set xs" and d: "d \<in> set xs"
    and ab: "tie cmp a b" and bd: "before cmp b d"
  shows "before cmp a d"
proof -
  have ba: "tie cmp b a" using consistent_onD(2) [OF c a b b] ab by blast
  have "\<not> tie cmp a d"
  proof
    assume "tie cmp a d"
    then have "tie cmp b d" using consistent_onD(3) [OF c b a d] ba by blast
    with bd show False using order_trichotomy [of cmp b d] by blast
  qed
  moreover have "\<not> after cmp a d"
  proof
    assume "after cmp a d"
    then have "before cmp d a" using before_iff_after [OF c d a] by blast
    with bd have "before cmp b a" using consistent_onD(4) [OF c b d a] by blast
    with ba show False using order_trichotomy [of cmp b a] by blast
  qed
  ultimately show ?thesis using order_trichotomy [of cmp a d] by blast
qed

lemma before_tie:
  assumes c: "consistent_on cmp xs" and a: "a \<in> set xs" and b: "b \<in> set xs" and d: "d \<in> set xs"
    and ab: "before cmp a b" and bd: "tie cmp b d"
  shows "before cmp a d"
proof -
  have db: "tie cmp d b" using consistent_onD(2) [OF c b d d] bd by blast
  have "\<not> tie cmp a d"
  proof
    assume "tie cmp a d"
    then have "tie cmp a b" using consistent_onD(3) [OF c a d b] db by blast
    with ab show False using order_trichotomy [of cmp a b] by blast
  qed
  moreover have "\<not> after cmp a d"
  proof
    assume "after cmp a d"
    then have "before cmp d a" using before_iff_after [OF c d a] by blast
    with ab have "before cmp d b" using consistent_onD(4) [OF c d a b] by blast
    with db show False using order_trichotomy [of cmp d b] by blast
  qed
  ultimately show ?thesis using order_trichotomy [of cmp a d] by blast
qed

lemma consistent_preorder:
  assumes c: "consistent_on cmp xs"
  shows "preorder_on cmp (set xs)"
proof -
  have trans: "le_by cmp a d" if "a \<in> set xs" "b \<in> set xs" "d \<in> set xs"
    "le_by cmp a b" "le_by cmp b d" for a b d
  proof -
    from that have ab: "before cmp a b \<or> tie cmp a b" and bd: "before cmp b d \<or> tie cmp b d"
      using le_by_cases [OF c] by blast+
    have "before cmp a d \<or> tie cmp a d"
      using ab bd consistent_onD(3,4) [OF c that(1) that(2) that(3)]
        tie_before [OF c that(1) that(2) that(3)] before_tie [OF c that(1) that(2) that(3)]
      by blast
    then show ?thesis using le_by_cases [OF c that(1) that(3)] by blast
  qed
  have total: "le_by cmp a b \<or> le_by cmp b a" if "a \<in> set xs" "b \<in> set xs" for a b
    using le_by_cases [OF c that(1) that(2)] le_by_cases [OF c that(2) that(1)]
      before_iff_after [OF c that(2) that(1)] order_trichotomy [of cmp a b]
    by blast
  have ties: "tie cmp a b = (le_by cmp a b \<and> le_by cmp b a)" if "a \<in> set xs" "b \<in> set xs" for a b
    using le_by_cases [OF c that(1) that(2)] le_by_cases [OF c that(2) that(1)]
      before_iff_after [OF c that(2) that(1)] before_iff_after [OF c that(1) that(2)]
      order_trichotomy [of cmp a b] order_trichotomy [of cmp b a] consistent_onD(2) [OF c that(1) that(2) that(1)]
    by blast
  show ?thesis
    unfolding preorder_on_def using trans total ties by blast
qed

lemma preorder_onD:
  assumes "preorder_on cmp S"
  shows "a \<in> S \<Longrightarrow> b \<in> S \<Longrightarrow> c \<in> S \<Longrightarrow> le_by cmp a b \<Longrightarrow> le_by cmp b c \<Longrightarrow> le_by cmp a c"
    and "a \<in> S \<Longrightarrow> b \<in> S \<Longrightarrow> le_by cmp a b \<or> le_by cmp b a"
    and "a \<in> S \<Longrightarrow> b \<in> S \<Longrightarrow> tie cmp a b = (le_by cmp a b \<and> le_by cmp b a)"
  using assms unfolding preorder_on_def by blast+

lemma le_by_refl: "preorder_on cmp S \<Longrightarrow> a \<in> S \<Longrightarrow> le_by cmp a a"
  using preorder_onD(2) [of cmp S a a] by blast

lemma sorted_by_nth:
  assumes po: "preorder_on cmp S" and w: "set work \<subseteq> S" and srt: "sorted_by cmp work"
    and ij: "i \<le> j" "j < length work"
  shows "le_by cmp (work ! i) (work ! j)"
proof (cases "i = j")
  case True
  with w ij have "work ! i \<in> S" by auto
  with True show ?thesis using le_by_refl [OF po] by simp
next
  case False
  with ij have "i < j" by simp
  with srt ij show ?thesis by (simp add: sorted_by_def sorted_wrt_nth_less)
qed

lemma binary_search_spec:
  "preorder_on cmp S \<Longrightarrow> set work \<subseteq> S \<Longrightarrow> pivot \<in> S \<Longrightarrow> sorted_by cmp work \<Longrightarrow>
     left \<le> right \<Longrightarrow> right \<le> length work \<Longrightarrow>
     (\<forall>i<left. le_by cmp (work ! i) pivot) \<Longrightarrow>
     (\<forall>i. right \<le> i \<and> i < length work \<longrightarrow> before cmp pivot (work ! i)) \<Longrightarrow>
     binary_search cmp work pivot left right \<le> length work \<and>
     (\<forall>i<binary_search cmp work pivot left right. le_by cmp (work ! i) pivot) \<and>
     (\<forall>i. binary_search cmp work pivot left right \<le> i \<and> i < length work \<longrightarrow>
          before cmp pivot (work ! i))"
proof (induction cmp work pivot left right rule: binary_search.induct)
  case (1 cmp work pivot left right)
  note po = \<open>preorder_on cmp S\<close> and w = \<open>set work \<subseteq> S\<close> and p = \<open>pivot \<in> S\<close>
    and srt = \<open>sorted_by cmp work\<close>
  let ?mid = "left + (right - left) div 2"
  show ?case
  proof (cases "left < right")
    case False
    with \<open>left \<le> right\<close> have "left = right" by simp
    moreover from False have "binary_search cmp work pivot left right = left"
      by (simp add: binary_search.simps)
    ultimately show ?thesis
      using "1.prems" by simp
  next
    case True
    then have mid: "left \<le> ?mid" "?mid < right" by auto
    with \<open>right \<le> length work\<close> have midlen: "?mid < length work" by simp
    then have midS: "work ! ?mid \<in> S" using w by auto
    show ?thesis
    proof (cases "before cmp pivot (work ! ?mid)")
      case b: True
      have eq: "binary_search cmp work pivot left right = binary_search cmp work pivot left ?mid"
        using True b by (subst binary_search.simps) (simp add: Let_def)
      have up: "\<forall>i. ?mid \<le> i \<and> i < length work \<longrightarrow> before cmp pivot (work ! i)"
      proof (intro allI impI)
        fix i assume i: "?mid \<le> i \<and> i < length work"
        then have "le_by cmp (work ! ?mid) (work ! i)"
          using sorted_by_nth [OF po w srt] by blast
        moreover from i w have "work ! i \<in> S" by auto
        moreover from b have "\<not> le_by cmp (work ! ?mid) pivot" by (simp add: le_by_def)
        ultimately have "\<not> le_by cmp (work ! i) pivot"
          using preorder_onD(1) [OF po midS _ p] by blast
        then show "before cmp pivot (work ! i)" by (simp add: le_by_def)
      qed
      from "1.IH"(1) [OF True refl b po w p srt mid(1) _ \<open>\<forall>i<left. le_by cmp (work ! i) pivot\<close> up] midlen
      show ?thesis unfolding eq by simp
    next
      case nb: False
      have eq: "binary_search cmp work pivot left right = binary_search cmp work pivot (?mid + 1) right"
        using True nb by (subst binary_search.simps) (simp add: Let_def)
      from nb have le: "le_by cmp (work ! ?mid) pivot" by (simp add: le_by_def)
      have low: "\<forall>i<?mid + 1. le_by cmp (work ! i) pivot"
      proof (intro allI impI)
        fix i assume i: "i < ?mid + 1"
        then have "le_by cmp (work ! i) (work ! ?mid)"
          using sorted_by_nth [OF po w srt _ midlen] by simp
        moreover from i midlen w have "work ! i \<in> S" by auto
        ultimately show "le_by cmp (work ! i) pivot"
          using preorder_onD(1) [OF po _ midS p] le by blast
      qed
      from mid have m1: "?mid + 1 \<le> right" by simp
      from "1.IH"(2) [OF True refl nb po w p srt m1 \<open>right \<le> length work\<close> low
          \<open>\<forall>i. right \<le> i \<and> i < length work \<longrightarrow> before cmp pivot (work ! i)\<close>]
      show ?thesis unfolding eq by simp
    qed
  qed
qed

lemma binary_insert_place:
  assumes po: "preorder_on cmp S" and w: "set work \<subseteq> S" and p: "pivot \<in> S"
    and srt: "sorted_by cmp work"
  shows "\<exists>n. binary_insert cmp work pivot = take n work @ pivot # drop n work \<and>
             (\<forall>x\<in>set (take n work). le_by cmp x pivot) \<and>
             (\<forall>x\<in>set (drop n work). before cmp pivot x)"
proof -
  let ?n = "binary_search cmp work pivot 0 (length work)"
  have spec: "?n \<le> length work \<and> (\<forall>i<?n. le_by cmp (work ! i) pivot) \<and>
     (\<forall>i. ?n \<le> i \<and> i < length work \<longrightarrow> before cmp pivot (work ! i))"
  proof -
    have v: "\<forall>i. length work \<le> i \<and> i < length work \<longrightarrow> before cmp pivot (work ! i)"
      by auto
    have z: "\<forall>i<(0::nat). le_by cmp (work ! i) pivot"
      by simp
    show ?thesis
      using binary_search_spec [OF po w p srt le0 le_refl z v] .
  qed
  have 1: "\<forall>x\<in>set (take ?n work). le_by cmp x pivot"
  proof
    fix x assume "x \<in> set (take ?n work)"
    then obtain i where "i < length (take ?n work)" "take ?n work ! i = x"
      by (auto simp: in_set_conv_nth)
    with spec show "le_by cmp x pivot" by auto
  qed
  have 2: "\<forall>x\<in>set (drop ?n work). before cmp pivot x"
  proof
    fix x assume "x \<in> set (drop ?n work)"
    then obtain i where i: "i < length (drop ?n work)" "drop ?n work ! i = x"
      by (auto simp: in_set_conv_nth)
    then have "?n + i < length work" "work ! (?n + i) = x" using spec by auto
    with spec show "before cmp pivot x" by (metis le_add1)
  qed
  show ?thesis
    using 1 2 by (intro exI [of _ ?n]) (simp add: binary_insert_def Let_def)
qed

lemma mset_take_drop: "mset (take n xs) + mset (drop n xs) = mset xs"
  by (metis append_take_drop_id mset_append)

lemma mset_binary_insert: "mset (binary_insert cmp work pivot) = add_mset pivot (mset work)"
proof -
  have "mset (take n work) + mset (drop n work) = mset work" for n
    by (metis append_take_drop_id mset_append)
  then show ?thesis
    by (simp add: binary_insert_def Let_def)
qed

lemma set_binary_insert: "set (binary_insert cmp work pivot) = insert pivot (set work)"
  using mset_binary_insert [of cmp work pivot] by (metis set_mset_add_mset_insert set_mset_mset)

lemma sorted_binary_insert:
  assumes po: "preorder_on cmp S" and w: "set work \<subseteq> S" and p: "pivot \<in> S"
    and srt: "sorted_by cmp work"
  shows "sorted_by cmp (binary_insert cmp work pivot)"
proof -
  from binary_insert_place [OF assms] obtain n where
    eq: "binary_insert cmp work pivot = take n work @ pivot # drop n work"
    and lo: "\<forall>x\<in>set (take n work). le_by cmp x pivot"
    and hi: "\<forall>x\<in>set (drop n work). before cmp pivot x"
    by blast
  have hi': "\<forall>x\<in>set (drop n work). le_by cmp pivot x"
  proof
    fix x assume x: "x \<in> set (drop n work)"
    with hi have "\<not> le_by cmp x pivot" by (simp add: le_by_def)
    moreover from x w have "x \<in> S" by (meson in_set_dropD subsetD)
    ultimately show "le_by cmp pivot x" using preorder_onD(2) [OF po p] by blast
  qed
  from srt have s0: "sorted_wrt (le_by cmp) (take n work @ drop n work)"
    by (simp add: sorted_by_def)
  have "sorted_wrt (le_by cmp) (take n work @ pivot # drop n work)"
    unfolding sorted_wrt_append sorted_wrt.simps
    using s0 [unfolded sorted_wrt_append] lo hi' by auto
  with eq show ?thesis by (simp add: sorted_by_def)
qed

lemma stable_binary_insert:
  assumes po: "preorder_on cmp S" and w: "set work \<subseteq> S" and p: "pivot \<in> S"
    and srt: "sorted_by cmp work" and k: "k \<in> S"
  shows "filter (tie cmp k) (binary_insert cmp work pivot) = filter (tie cmp k) (work @ [pivot])"
proof -
  from binary_insert_place [OF po w p srt] obtain n where
    eq: "binary_insert cmp work pivot = take n work @ pivot # drop n work"
    and lo: "\<forall>x\<in>set (take n work). le_by cmp x pivot"
    and hi: "\<forall>x\<in>set (drop n work). before cmp pivot x"
    by blast
  have split: "filter (tie cmp k) work = filter (tie cmp k) (take n work) @ filter (tie cmp k) (drop n work)"
    by (metis append_take_drop_id filter_append)
  show ?thesis
  proof (cases "tie cmp k pivot")
    case False
    then show ?thesis by (simp add: eq split)
  next
    case True
    have "filter (tie cmp k) (drop n work) = []"
    proof (rule filter_False, rule ballI)
      fix x assume x: "x \<in> set (drop n work)"
      then have xS: "x \<in> S" using w by (meson in_set_dropD subsetD)
      show "\<not> tie cmp k x"
      proof
        assume "tie cmp k x"
        then have "le_by cmp x k" using preorder_onD(3) [OF po k xS] by blast
        moreover from True have "le_by cmp k pivot" using preorder_onD(3) [OF po k p] by blast
        ultimately have "le_by cmp x pivot" using preorder_onD(1) [OF po xS k p] by blast
        with hi x show False by (simp add: le_by_def)
      qed
    qed
    with True show ?thesis by (simp add: eq split)
  qed
qed

lemma fold_binary_insert:
  "preorder_on cmp S \<Longrightarrow> set run \<subseteq> S \<Longrightarrow> set rest \<subseteq> S \<Longrightarrow> sorted_by cmp run \<Longrightarrow>
     sorted_by cmp (foldl (binary_insert cmp) run rest) \<and>
     (\<forall>k\<in>S. filter (tie cmp k) (foldl (binary_insert cmp) run rest) =
             filter (tie cmp k) (run @ rest))"
proof (induction rest arbitrary: run)
  case Nil
  then show ?case by simp
next
  case (Cons x rest)
  from Cons.prems have x: "x \<in> S" and rest: "set rest \<subseteq> S" by auto
  have s1: "sorted_by cmp (binary_insert cmp run x)"
    using sorted_binary_insert [OF Cons.prems(1,2) x Cons.prems(4)] .
  have w1: "set (binary_insert cmp run x) \<subseteq> S"
    using Cons.prems(2) x by (simp add: set_binary_insert)
  have st: "\<forall>k\<in>S. filter (tie cmp k) (binary_insert cmp run x) = filter (tie cmp k) (run @ [x])"
    using stable_binary_insert [OF Cons.prems(1,2) x Cons.prems(4)] by blast
  from Cons.IH [OF Cons.prems(1) w1 rest s1] st show ?case
    by simp
qed

lemma mset_fold_binary_insert:
  "mset (foldl (binary_insert cmp) run rest) = mset run + mset rest"
  by (induction rest arbitrary: run) (simp_all add: mset_binary_insert)

lemma before_trans:
  assumes po: "preorder_on cmp S" and "a \<in> S" "b \<in> S" "c \<in> S"
    and "before cmp c b" "before cmp b a"
  shows "before cmp c a"
proof -
  from assms have nbc: "\<not> le_by cmp b c" and nab: "\<not> le_by cmp a b" by (simp_all add: le_by_def)
  have "\<not> le_by cmp a c"
  proof
    assume ac: "le_by cmp a c"
    from nab have "le_by cmp b a" using preorder_onD(2) [OF po \<open>a \<in> S\<close> \<open>b \<in> S\<close>] by blast
    with ac have "le_by cmp b c" using preorder_onD(1) [OF po \<open>b \<in> S\<close> \<open>a \<in> S\<close> \<open>c \<in> S\<close>] by blast
    with nbc show False ..
  qed
  then show ?thesis by (simp add: le_by_def)
qed

lemma before_le_by:
  assumes po: "preorder_on cmp S" and "a \<in> S" "b \<in> S" and "before cmp a b"
  shows "le_by cmp a b"
  using assms preorder_onD(2) [OF po \<open>a \<in> S\<close> \<open>b \<in> S\<close>] by (auto simp: le_by_def)

lemma run_ascending_sorted:
  "preorder_on cmp S \<Longrightarrow> prev \<in> S \<Longrightarrow> set rest \<subseteq> S \<Longrightarrow>
     sorted_wrt (le_by cmp) (prev # take (run_ascending cmp prev rest) rest)"
proof (induction rest arbitrary: prev)
  case Nil
  then show ?case by simp
next
  case (Cons cur rest)
  show ?case
  proof (cases "before cmp cur prev")
    case True
    then show ?thesis by simp
  next
    case False
    then have pc: "le_by cmp prev cur" by (simp add: le_by_def)
    from Cons.prems have cur: "cur \<in> S" and rest: "set rest \<subseteq> S" by auto
    have ih: "sorted_wrt (le_by cmp) (cur # take (run_ascending cmp cur rest) rest)"
      using Cons.IH [OF Cons.prems(1) cur rest] .
    have "\<forall>y\<in>set (take (run_ascending cmp cur rest) rest). le_by cmp prev y"
    proof
      fix y assume y: "y \<in> set (take (run_ascending cmp cur rest) rest)"
      with ih have "le_by cmp cur y" by simp
      moreover from y rest have "y \<in> S" by (meson in_set_takeD subsetD)
      ultimately show "le_by cmp prev y"
        using preorder_onD(1) [OF Cons.prems(1) Cons.prems(2) cur] pc by blast
    qed
    with ih pc False show ?thesis by simp
  qed
qed

lemma run_descending_chain:
  "preorder_on cmp S \<Longrightarrow> prev \<in> S \<Longrightarrow> set rest \<subseteq> S \<Longrightarrow>
     sorted_wrt (\<lambda>a b. before cmp b a) (prev # take (run_descending cmp prev rest) rest)"
proof (induction rest arbitrary: prev)
  case Nil
  then show ?case by simp
next
  case (Cons cur rest)
  show ?case
  proof (cases "before cmp cur prev")
    case False
    then show ?thesis by simp
  next
    case True
    from Cons.prems have cur: "cur \<in> S" and rest: "set rest \<subseteq> S" by auto
    have ih: "sorted_wrt (\<lambda>a b. before cmp b a) (cur # take (run_descending cmp cur rest) rest)"
      using Cons.IH [OF Cons.prems(1) cur rest] .
    have "\<forall>y\<in>set (take (run_descending cmp cur rest) rest). before cmp y prev"
    proof
      fix y assume y: "y \<in> set (take (run_descending cmp cur rest) rest)"
      with ih have "before cmp y cur" by simp
      moreover from y rest have "y \<in> S" by (meson in_set_takeD subsetD)
      ultimately show "before cmp y prev"
        using before_trans [OF Cons.prems(1) Cons.prems(2) cur _ _ True] by blast
    qed
    with ih True show ?thesis by simp
  qed
qed

lemma strict_chain_one_tie:
  "preorder_on cmp S \<Longrightarrow> set ds \<subseteq> S \<Longrightarrow> k \<in> S \<Longrightarrow> sorted_wrt (\<lambda>a b. before cmp b a) ds \<Longrightarrow>
     length (filter (tie cmp k) ds) \<le> 1"
proof (induction ds)
  case Nil
  then show ?case by simp
next
  case (Cons a ds)
  from Cons.prems have a: "a \<in> S" and ds: "set ds \<subseteq> S" by auto
  show ?case
  proof (cases "tie cmp k a")
    case False
    with Cons show ?thesis by simp
  next
    case True
    have "filter (tie cmp k) ds = []"
    proof (rule filter_False, rule ballI)
      fix b assume b: "b \<in> set ds"
      with ds have bS: "b \<in> S" by auto
      from b Cons.prems(4) have "before cmp b a" by simp
      then have nab: "\<not> le_by cmp a b" by (simp add: le_by_def)
      show "\<not> tie cmp k b"
      proof
        assume "tie cmp k b"
        then have "le_by cmp k b" using preorder_onD(3) [OF Cons.prems(1) Cons.prems(3) bS] by blast
        moreover from True have "le_by cmp a k"
          using preorder_onD(3) [OF Cons.prems(1) Cons.prems(3) a] by blast
        ultimately have "le_by cmp a b"
          using preorder_onD(1) [OF Cons.prems(1) a Cons.prems(3) bS] by blast
        with nab show False ..
      qed
    qed
    with True show ?thesis by simp
  qed
qed

lemma rev_short: "length xs \<le> 1 \<Longrightarrow> rev xs = xs"
  by (cases xs) auto

lemma count_and_make_run_spec:
  assumes po: "preorder_on cmp (set xs)" and r: "count_and_make_run cmp xs = (run, rest)"
  shows "sorted_by cmp run \<and> mset run + mset rest = mset xs \<and>
         (\<forall>k\<in>set xs. filter (tie cmp k) (run @ rest) = filter (tie cmp k) xs)"
proof (cases "\<exists>x0 x1 tl. xs = x0 # x1 # tl")
  case True
  then obtain x0 x1 tl where xs: "xs = x0 # x1 # tl" by blast
  then have x0: "x0 \<in> set xs" and x1: "x1 \<in> set xs" and tl: "set tl \<subseteq> set xs" by auto
  show ?thesis
  proof (cases "before cmp x1 x0")
    case False
    let ?n = "run_ascending cmp x1 tl"
    from r xs False have run: "run = x0 # x1 # take ?n tl" and rest: "rest = drop ?n tl"
      by (simp_all add: Let_def)
    have s1: "sorted_wrt (le_by cmp) (x1 # take ?n tl)"
      using run_ascending_sorted [OF po x1 tl] .
    from False have l01: "le_by cmp x0 x1" by (simp add: le_by_def)
    have "\<forall>y\<in>set (take ?n tl). le_by cmp x0 y"
    proof
      fix y assume y: "y \<in> set (take ?n tl)"
      with s1 have "le_by cmp x1 y" by simp
      moreover from y tl have "y \<in> set xs" by (meson in_set_takeD subsetD)
      ultimately show "le_by cmp x0 y" using preorder_onD(1) [OF po x0 x1] l01 by blast
    qed
    with s1 l01 have "sorted_by cmp run" by (simp add: run sorted_by_def)
    moreover have "run @ rest = xs" by (simp add: run rest xs)
    moreover from this have "mset run + mset rest = mset xs" by (metis mset_append)
    ultimately show ?thesis by simp
  next
    case True
    let ?n = "run_descending cmp x1 tl"
    let ?ds = "x0 # x1 # take ?n tl"
    from r xs True have run: "run = rev ?ds" and rest: "rest = drop ?n tl"
      by (simp_all add: Let_def)
    have c1: "sorted_wrt (\<lambda>a b. before cmp b a) (x1 # take ?n tl)"
      using run_descending_chain [OF po x1 tl] .
    have "\<forall>y\<in>set (take ?n tl). before cmp y x0"
    proof
      fix y assume y: "y \<in> set (take ?n tl)"
      with c1 have "before cmp y x1" by simp
      moreover from y tl have "y \<in> set xs" by (meson in_set_takeD subsetD)
      ultimately show "before cmp y x0" using before_trans [OF po x0 x1 _ _ True] by blast
    qed
    with c1 True have chain: "sorted_wrt (\<lambda>a b. before cmp b a) ?ds" by simp
    have dsS: "set ?ds \<subseteq> set xs" using x0 x1 tl by (auto dest: in_set_takeD)
    have "sorted_wrt (before cmp) (rev ?ds)"
      using chain by (simp only: sorted_wrt_rev)
    then have "sorted_wrt (le_by cmp) (rev ?ds)"
    proof (rule sorted_wrt_mono_rel [rotated])
      fix a b assume "a \<in> set (rev ?ds)" "b \<in> set (rev ?ds)" "before cmp a b"
      with dsS show "le_by cmp a b" using before_le_by [OF po, of a b] by auto
    qed
    then have srt: "sorted_by cmp run" by (simp add: run sorted_by_def)
    have ms: "mset run + mset rest = mset xs"
      by (simp add: run rest xs mset_take_drop)
    have st: "\<forall>k\<in>set xs. filter (tie cmp k) (run @ rest) = filter (tie cmp k) xs"
    proof
      fix k assume k: "k \<in> set xs"
      have "length (filter (tie cmp k) ?ds) \<le> 1"
        using strict_chain_one_tie [OF po dsS k chain] .
      then have "rev (filter (tie cmp k) ?ds) = filter (tie cmp k) ?ds" by (rule rev_short)
      then have "filter (tie cmp k) (rev ?ds) = filter (tie cmp k) ?ds" by (simp only: rev_filter)
      then have "filter (tie cmp k) (rev ?ds @ drop ?n tl) = filter (tie cmp k) (?ds @ drop ?n tl)"
        by (simp only: filter_append)
      also have "?ds @ drop ?n tl = xs" by (simp add: xs)
      finally show "filter (tie cmp k) (run @ rest) = filter (tie cmp k) xs" by (simp only: run rest)
    qed
    from srt ms st show ?thesis by blast
  qed
next
  case False
  then have "xs = [] \<or> (\<exists>x. xs = [x])"
    by (cases xs; cases "tl xs") auto
  with r show ?thesis by (auto simp: sorted_by_def)
qed

lemma mset_count_and_make_run:
  "count_and_make_run cmp xs = (run, rest) \<Longrightarrow> mset run + mset rest = mset xs"
proof (cases "\<exists>x0 x1 tl. xs = x0 # x1 # tl")
  case True
  then obtain x0 x1 tl where xs: "xs = x0 # x1 # tl" by blast
  assume "count_and_make_run cmp xs = (run, rest)"
  with xs show ?thesis
    by (auto simp: Let_def mset_take_drop split: if_splits)
next
  case False
  then have "xs = [] \<or> (\<exists>x. xs = [x])"
    by (cases xs; cases "tl xs") auto
  moreover assume "count_and_make_run cmp xs = (run, rest)"
  ultimately show ?thesis by auto
qed

lemma mset_js_sort: "mset (js_sort cmp xs) = mset xs"
proof -
  obtain run rest where r: "count_and_make_run cmp xs = (run, rest)"
    by (cases "count_and_make_run cmp xs") blast
  then show ?thesis
    by (simp add: js_sort_def mset_fold_binary_insert mset_count_and_make_run)
qed

lemma js_sort_preorder:
  assumes po: "preorder_on cmp (set xs)"
  shows "sorted_by cmp (js_sort cmp xs) \<and>
         (\<forall>k\<in>set xs. filter (tie cmp k) (js_sort cmp xs) = filter (tie cmp k) xs)"
proof -
  obtain run rest where r: "count_and_make_run cmp xs = (run, rest)"
    by (cases "count_and_make_run cmp xs") blast
  from count_and_make_run_spec [OF po r] have srt: "sorted_by cmp run"
    and ms: "mset run + mset rest = mset xs"
    and st: "\<forall>k\<in>set xs. filter (tie cmp k) (run @ rest) = filter (tie cmp k) xs"
    by blast+
  from ms have "set run \<union> set rest = set xs"
    by (metis set_mset_mset set_mset_union)
  then have sub: "set run \<subseteq> set xs" "set rest \<subseteq> set xs" by auto
  from fold_binary_insert [OF po sub srt] st r show ?thesis
    by (simp add: js_sort_def)
qed

lemma js_sort_sorted: "consistent_on cmp xs \<Longrightarrow> sorted_by cmp (js_sort cmp xs)"
  using js_sort_preorder [OF consistent_preorder] by blast

lemma js_sort_stable:
  "consistent_on cmp xs \<Longrightarrow> k \<in> set xs \<Longrightarrow>
     filter (tie cmp k) (js_sort cmp xs) = filter (tie cmp k) xs"
  using js_sort_preorder [OF consistent_preorder] by blast

lemma row_compare_all_zero:
  "list_all (\<lambda>c. field_comparison P fs c a b = Fin 0) conditions \<Longrightarrow>
     row_compare P fs conditions a b = Fin 0"
  by (induction conditions) (simp_all add: Let_def)

lemma all_conditions_tie_imp_tie:
  "all_conditions_tie P dp conditions a b \<Longrightarrow> tie (row_compare P (fieldInfos dp) conditions) a b"
  by (simp add: all_conditions_tie_def tie_def sort_order_def row_compare_all_zero)

lemma filter_within:
  assumes "\<And>x. Q x \<Longrightarrow> T x" and "filter T xs = filter T ys"
  shows "filter Q xs = filter Q ys"
proof -
  have "filter Q zs = filter Q (filter T zs)" for zs
    using assms(1) by (induction zs) auto
  with assms(2) show ?thesis by metis
qed

text \<open>
  C7. The claim is stability for every row list. With a comparator that is not consistent
  the engine's order is its own: on seven rows whose numeric column \<^verbatim>\<open>n\<close> holds
  \<^verbatim>\<open>"abc", "abc", 1, 0, "abc", 0, 0\<close> (a comparison with \<^verbatim>\<open>"abc"\<close> is \<^verbatim>\<open>NaN\<close>), sorting
  by \<^verbatim>\<open>n\<close> ascending returns the rows 0, 1, 3, 6, 2, 4, 5: rows 5 and 6 tie on the condition
  and leave in the opposite order.
\<close>

theorem sort_not_stable_with_unparsable_cells:
  "all_conditions_tie ref_platform \<lparr>data = unparsable_rows, fieldInfos = numeric_field\<rparr>
     by_n_ascending (labelled (JNum (Fin 0)) 5) (labelled (JNum (Fin 0)) 6) \<and>
   unparsable_rows =
     [labelled (JStr ''abc'') 0, labelled (JStr ''abc'') 1, labelled (JNum (Fin 1)) 2,
      labelled (JNum (Fin 0)) 3, labelled (JStr ''abc'') 4, labelled (JNum (Fin 0)) 5,
      labelled (JNum (Fin 0)) 6] \<and>
   sort_rows ref_platform \<lparr>data = unparsable_rows, fieldInfos = numeric_field\<rparr>
     unparsable_rows by_n_ascending =
     [labelled (JStr ''abc'') 0, labelled (JStr ''abc'') 1, labelled (JNum (Fin 0)) 3,
      labelled (JNum (Fin 0)) 6, labelled (JNum (Fin 1)) 2, labelled (JStr ''abc'') 4,
      labelled (JNum (Fin 0)) 5] \<and>
   filter (all_conditions_tie ref_platform \<lparr>data = unparsable_rows, fieldInfos = numeric_field\<rparr>
             by_n_ascending (labelled (JNum (Fin 0)) 5))
     (sort_rows ref_platform \<lparr>data = unparsable_rows, fieldInfos = numeric_field\<rparr>
        unparsable_rows by_n_ascending) \<noteq>
   filter (all_conditions_tie ref_platform \<lparr>data = unparsable_rows, fieldInfos = numeric_field\<rparr>
             by_n_ascending (labelled (JNum (Fin 0)) 5))
     unparsable_rows"
  by code_simp

text \<open>
  C7, as it holds. When the comparator built from the conditions is consistent on the rows
  (ties are symmetric and transitive, and so are ``before'' and ``after''), the sort is
  stable: for every row \<open>a\<close> of the input, the rows that tie with \<open>a\<close> on every condition
  appear in the output in their input order, and the output is a rearrangement of the input.
\<close>

theorem sort_stable_when_consistent:
  assumes "consistent_on (row_compare P (fieldInfos dp) conditions) rows" and "a \<in> set rows"
  shows "filter (all_conditions_tie P dp conditions a) (sort_rows P dp rows conditions) =
           filter (all_conditions_tie P dp conditions a) rows \<and>
         mset (sort_rows P dp rows conditions) = mset rows"
proof -
  have "filter (tie (row_compare P (fieldInfos dp) conditions) a) (sort_rows P dp rows conditions) =
        filter (tie (row_compare P (fieldInfos dp) conditions) a) rows"
    unfolding sort_rows_def using assms by (rule js_sort_stable)
  then have "filter (all_conditions_tie P dp conditions a) (sort_rows P dp rows conditions) =
             filter (all_conditions_tie P dp conditions a) rows"
    by (rule filter_within [rotated]) (rule all_conditions_tie_imp_tie)
  then show ?thesis
    by (simp add: sort_rows_def mset_js_sort)
qed

theorem sort_stable_when_consistent_witness:
  "consistent_on
     (row_compare ref_platform (fieldInfos \<lparr>data = parsable_rows, fieldInfos = numeric_field\<rparr>)
        by_n_ascending) parsable_rows \<and>
   labelled (JNum (Fin 2)) 0 \<in> set parsable_rows \<and>
   filter (all_conditions_tie ref_platform \<lparr>data = parsable_rows, fieldInfos = numeric_field\<rparr>
             by_n_ascending (labelled (JNum (Fin 2)) 0))
     (sort_rows ref_platform \<lparr>data = parsable_rows, fieldInfos = numeric_field\<rparr>
        parsable_rows by_n_ascending) =
   filter (all_conditions_tie ref_platform \<lparr>data = parsable_rows, fieldInfos = numeric_field\<rparr>
             by_n_ascending (labelled (JNum (Fin 2)) 0))
     parsable_rows \<and>
   sort_rows ref_platform \<lparr>data = parsable_rows, fieldInfos = numeric_field\<rparr>
     parsable_rows by_n_ascending =
     [labelled (JNum (Fin 1)) 1, labelled (JNum (Fin 1)) 3, labelled (JNum (Fin 2)) 0,
      labelled (JNum (Fin 2)) 2]"
proof -
  have h1: "consistent_on
     (row_compare ref_platform (fieldInfos \<lparr>data = parsable_rows, fieldInfos = numeric_field\<rparr>)
        by_n_ascending) parsable_rows"
    by code_simp
  have h2: "labelled (JNum (Fin 2)) 0 \<in> set parsable_rows"
    by (simp add: parsable_rows_def)
  have e: "sort_rows ref_platform \<lparr>data = parsable_rows, fieldInfos = numeric_field\<rparr>
     parsable_rows by_n_ascending =
     [labelled (JNum (Fin 1)) 1, labelled (JNum (Fin 1)) 3, labelled (JNum (Fin 2)) 0,
      labelled (JNum (Fin 2)) 2]"
    by code_simp
  from sort_stable_when_consistent [OF h1 h2] h1 h2 e show ?thesis
    by blast
qed

subsection \<open>Numeric statistics\<close>

lemma num_lt_trans: "num_lt a b \<Longrightarrow> num_lt b c \<Longrightarrow> num_lt a c"
  by (cases a; cases b; cases c) auto

lemma num_lt_irrefl: "\<not> num_lt a a"
  by (cases a) auto

lemma num_lt_total: "\<not> isNaN a \<Longrightarrow> \<not> isNaN b \<Longrightarrow> num_lt a b \<or> a = b \<or> num_lt b a"
  by (cases a; cases b) auto

lemma tie_num_sub: "\<not> isNaN a \<Longrightarrow> \<not> isNaN b \<Longrightarrow> tie (\<lambda>a b. num_sub a b) a b = (a = b)"
  by (cases a; cases b) (auto simp: tie_def sort_order_def num_sub_def)

lemma before_num_sub: "\<not> isNaN a \<Longrightarrow> \<not> isNaN b \<Longrightarrow> before (\<lambda>a b. num_sub a b) a b = num_lt a b"
  by (cases a; cases b) (auto simp: before_def sort_order_def num_sub_def)

lemma after_num_sub: "\<not> isNaN a \<Longrightarrow> \<not> isNaN b \<Longrightarrow> after (\<lambda>a b. num_sub a b) a b = num_lt b a"
  by (cases a; cases b) (auto simp: after_def sort_order_def num_sub_def)

lemma consistent_num_sub:
  assumes "list_all (\<lambda>v. \<not> isNaN v) xs"
  shows "consistent_on (\<lambda>a b. num_sub a b) xs"
proof -
  have "tie (\<lambda>a b. num_sub a b) a a \<and>
       (tie (\<lambda>a b. num_sub a b) a b \<longrightarrow> tie (\<lambda>a b. num_sub a b) b a) \<and>
       (tie (\<lambda>a b. num_sub a b) a b \<and> tie (\<lambda>a b. num_sub a b) b c \<longrightarrow> tie (\<lambda>a b. num_sub a b) a c) \<and>
       (before (\<lambda>a b. num_sub a b) a b \<and> before (\<lambda>a b. num_sub a b) b c \<longrightarrow> before (\<lambda>a b. num_sub a b) a c) \<and>
       (after (\<lambda>a b. num_sub a b) a b \<and> after (\<lambda>a b. num_sub a b) b c \<longrightarrow> after (\<lambda>a b. num_sub a b) a c)"
    if "a \<in> set xs" "b \<in> set xs" "c \<in> set xs" for a b c
  proof -
    from that assms have n: "\<not> isNaN a" "\<not> isNaN b" "\<not> isNaN c" by (auto simp: list_all_iff)
    show ?thesis
      using num_lt_trans [of a b c] num_lt_trans [of c b a]
      by (auto simp: tie_num_sub before_num_sub after_num_sub n)
  qed
  then show ?thesis
    unfolding consistent_on_def all_triples_def list_all_iff by blast
qed

lemma le_by_num_sub: "\<not> isNaN a \<Longrightarrow> \<not> isNaN b \<Longrightarrow> le_by (\<lambda>a b. num_sub a b) a b = num_le a b"
  using num_lt_total [of a b] num_lt_trans [of a b a] num_lt_irrefl [of a]
  by (auto simp: le_by_def before_num_sub num_le_def num_eq_def)

lemma num_add_commute: "num_add a b = num_add b a"
  by (cases a; cases b) (simp_all add: add.commute)

lemma num_sum_fold: "num_sum xs = fold num_add xs (Fin 0)"
proof -
  have "fold num_add xs a = num_add a (num_sum xs)" for a
  proof (induction xs arbitrary: a)
    case Nil
    then show ?case by (simp add: num_add_zero_right)
  next
    case (Cons x xs)
    have "fold num_add (x # xs) a = num_add (num_add x a) (num_sum xs)"
      by (simp add: Cons.IH)
    also have "\<dots> = num_add (num_add a x) (num_sum xs)"
      by (simp only: num_add_commute [of x a])
    also have "\<dots> = num_add a (num_sum (x # xs))"
      by (simp add: num_add_assoc)
    finally show ?case .
  qed
  then show ?thesis by (simp add: num_add_zero_left)
qed

lemma num_add_left_commute: "num_add a (num_add b c) = num_add b (num_add a c)"
  by (metis num_add_assoc num_add_commute)

lemma num_sum_mset:
  assumes "mset xs = mset ys"
  shows "num_sum xs = num_sum ys"
proof -
  have "fold num_add xs = fold num_add ys"
    using assms by (intro fold_multiset_equiv) (auto simp: fun_eq_iff num_add_left_commute)
  then show ?thesis by (simp add: num_sum_fold)
qed

lemma sorted_head_least:
  assumes "sorted_wrt num_le s" "s \<noteq> []" "list_all (\<lambda>v. \<not> isNaN v) s" "v \<in> set s"
  shows "num_le (s ! 0) v"
proof (cases s)
  case Nil
  with assms show ?thesis by simp
next
  case (Cons x xs)
  with assms have "\<not> isNaN x" by simp
  then have "num_le x x" by (simp add: num_le_def num_eq_def)
  with Cons assms show ?thesis by auto
qed

lemma sorted_last_greatest:
  assumes "sorted_wrt num_le s" "s \<noteq> []" "list_all (\<lambda>v. \<not> isNaN v) s" "v \<in> set s"
  shows "num_le v (s ! (length s - 1))"
proof -
  from assms(4) obtain i where i: "i < length s" "s ! i = v" by (auto simp: in_set_conv_nth)
  show ?thesis
  proof (cases "i = length s - 1")
    case True
    from assms(3) i have "\<not> isNaN v" by (auto simp: list_all_iff)
    then have "num_le v v" by (simp add: num_le_def num_eq_def)
    with True i show ?thesis by simp
  next
    case False
    with i have "i < length s - 1" "length s - 1 < length s" by auto
    with assms(1) i show ?thesis by (metis sorted_wrt_nth_less)
  qed
qed

lemma js_sort_numbers:
  assumes "list_all (\<lambda>v. \<not> isNaN v) xs"
  shows "sorted_wrt num_le (js_sort (\<lambda>a b. num_sub a b) xs) \<and>
         mset (js_sort (\<lambda>a b. num_sub a b) xs) = mset xs \<and>
         list_all (\<lambda>v. \<not> isNaN v) (js_sort (\<lambda>a b. num_sub a b) xs)"
proof -
  let ?s = "js_sort (\<lambda>a b. num_sub a b) xs"
  have ms: "mset ?s = mset xs" by (rule mset_js_sort)
  then have "set ?s = set xs" by (metis set_mset_mset)
  with assms have nn: "list_all (\<lambda>v. \<not> isNaN v) ?s" by (simp add: list_all_iff)
  have "sorted_wrt (le_by (\<lambda>a b. num_sub a b)) ?s"
    using js_sort_sorted [OF consistent_num_sub [OF assms]] by (simp add: sorted_by_def)
  then have "sorted_wrt num_le ?s"
  proof (rule sorted_wrt_mono_rel [rotated])
    fix a b assume "a \<in> set ?s" "b \<in> set ?s" "le_by (\<lambda>a b. num_sub a b) a b"
    with nn show "num_le a b" by (simp add: list_all_iff le_by_num_sub)
  qed
  with ms nn show ?thesis by simp
qed

lemma parsed_cells_not_NaN: "list_all (\<lambda>v. \<not> isNaN v) (parsed_cells f rows)"
  by (simp add: parsed_cells_def list_all_iff)

lemma getNumericStats_unfold:
  "getNumericStats dp f =
     (if \<not> declared_number (fieldInfos dp) f \<or> parsed_cells f (data dp) = [] then None
      else Some
        \<lparr> stat_min = js_sort (\<lambda>a b. num_sub a b) (parsed_cells f (data dp)) ! 0,
          stat_max = js_sort (\<lambda>a b. num_sub a b) (parsed_cells f (data dp)) !
                       (length (parsed_cells f (data dp)) - 1),
          stat_avg = mean_of_parsed (cells_of f (data dp)),
          stat_median = median_sorted (js_sort (\<lambda>a b. num_sub a b) (parsed_cells f (data dp))) \<rparr>)"
proof -
  let ?vs = "parsed_cells f (data dp)"
  let ?s = "js_sort (\<lambda>a b. num_sub a b) ?vs"
  have ms: "mset ?s = mset ?vs" by (rule mset_js_sort)
  then have len: "length ?s = length ?vs" by (rule mset_eq_length)
  have sum: "foldl (\<lambda>sum v. num_add sum v) (Fin 0) ?s = num_sum ?vs"
    using num_sum_mset [OF ms] by (simp add: reduce_sum_eq)
  have mean: "?vs \<noteq> [] \<Longrightarrow>
      num_div (num_sum ?vs) (jsnum_of_nat (length ?vs)) = mean_of_parsed (cells_of f (data dp))"
    by (simp add: mean_of_parsed_def parsed_cells_def Let_def)
  have vs: "filter (\<lambda>v. \<not> isNaN v) (map (\<lambda>r. parseFloat (get r f)) (data dp)) = ?vs"
    by (simp add: parsed_cells_def cells_of_def)
  show ?thesis
  proof (cases "find (\<lambda>x. name x = f) (fieldInfos dp)")
    case None
    then show ?thesis by (simp add: getNumericStats_def declared_number_def)
  next
    case (Some fld)
    show ?thesis
    proof (cases "type fld = TNumber")
      case False
      with Some show ?thesis by (simp add: getNumericStats_def declared_number_def)
    next
      case True
      show ?thesis
      proof (cases "?vs = []")
        case e: True
        with len have "length ?s = 0" by simp
        with Some True e show ?thesis
          unfolding getNumericStats_def vs Let_def by (simp add: declared_number_def)
      next
        case ne: False
        with len have "length ?s \<noteq> 0" by simp
        with Some True ne show ?thesis
          unfolding getNumericStats_def vs Let_def
          by (simp add: declared_number_def sum len mean median_sorted_def even_iff_mod_2_eq_zero)
      qed
    qed
  qed
qed

text \<open>
  C8. getNumericStats returns nothing exactly when the descriptor of the field is not of
  type number (or there is none) or no cell of the field parses. Otherwise its minimum and
  maximum are the least and the greatest parsed value, its average is their mean, and its
  median is the median of their ascending arrangement: the mean of the two central values
  for an even count, the middle value for an odd one. The values 1, 2, 3, 4 give
  minimum 1, maximum 4, average 2.5 and median 2.5.
\<close>

theorem numeric_stats:
  "((getNumericStats dp f = None) =
      (\<not> declared_number (fieldInfos dp) f \<or> parsed_cells f (data dp) = [])) \<and>
   (getNumericStats dp f = Some st \<longrightarrow>
      stat_min st \<in> set (parsed_cells f (data dp)) \<and>
      (\<forall>v\<in>set (parsed_cells f (data dp)). num_le (stat_min st) v) \<and>
      stat_max st \<in> set (parsed_cells f (data dp)) \<and>
      (\<forall>v\<in>set (parsed_cells f (data dp)). num_le v (stat_max st)) \<and>
      stat_avg st = mean_of_parsed (cells_of f (data dp)) \<and>
      (\<exists>s. mset s = mset (parsed_cells f (data dp)) \<and> sorted_wrt num_le s \<and>
           stat_median st = median_sorted s)) \<and>
   getNumericStats
     \<lparr>data = [[(''v'', JNum (Fin 1))], [(''v'', JNum (Fin 2))], [(''v'', JNum (Fin 3))],
              [(''v'', JNum (Fin 4))]],
      fieldInfos = [\<lparr>name = ''v'', type = TNumber\<rparr>]\<rparr> ''v'' =
     Some \<lparr>stat_min = Fin 1, stat_max = Fin 4, stat_avg = Fin (5 / 2), stat_median = Fin (5 / 2)\<rparr>"
proof -
  let ?vs = "parsed_cells f (data dp)"
  let ?s = "js_sort (\<lambda>a b. num_sub a b) ?vs"
  have none: "(getNumericStats dp f = None) = (\<not> declared_number (fieldInfos dp) f \<or> ?vs = [])"
    by (simp add: getNumericStats_unfold)
  have some: "stat_min st \<in> set ?vs \<and> (\<forall>v\<in>set ?vs. num_le (stat_min st) v) \<and>
      stat_max st \<in> set ?vs \<and> (\<forall>v\<in>set ?vs. num_le v (stat_max st)) \<and>
      stat_avg st = mean_of_parsed (cells_of f (data dp)) \<and>
      (\<exists>s. mset s = mset ?vs \<and> sorted_wrt num_le s \<and> stat_median st = median_sorted s)"
    if st: "getNumericStats dp f = Some st"
  proof -
    from st have ne: "?vs \<noteq> []" and
      vals: "st = \<lparr> stat_min = ?s ! 0, stat_max = ?s ! (length ?vs - 1),
          stat_avg = mean_of_parsed (cells_of f (data dp)), stat_median = median_sorted ?s \<rparr>"
      by (auto simp: getNumericStats_unfold split: if_splits)
    from js_sort_numbers [OF parsed_cells_not_NaN, of f "data dp"]
    have srt: "sorted_wrt num_le ?s" and ms: "mset ?s = mset ?vs"
      and nn: "list_all (\<lambda>v. \<not> isNaN v) ?s" by blast+
    from ms have set: "set ?s = set ?vs" by (metis set_mset_mset)
    from ms have len: "length ?s = length ?vs" by (rule mset_eq_length)
    with ne have sne: "?s \<noteq> []" by auto
    have "stat_min st \<in> set ?vs" using vals sne set by (metis NumericStats.select_convs(1) length_greater_0_conv nth_mem)
    moreover have "\<forall>v\<in>set ?vs. num_le (stat_min st) v"
      using sorted_head_least [OF srt sne nn] set vals by simp
    moreover have "stat_max st \<in> set ?vs"
    proof -
      from sne len have "length ?vs - 1 < length ?s" by (cases ?s) auto
      then have "?s ! (length ?vs - 1) \<in> set ?s" by (rule nth_mem)
      with set vals show ?thesis by simp
    qed
    moreover have "\<forall>v\<in>set ?vs. num_le v (stat_max st)"
      using sorted_last_greatest [OF srt sne nn] set vals len by simp
    moreover have "stat_avg st = mean_of_parsed (cells_of f (data dp))"
      using vals by simp
    moreover have "\<exists>s. mset s = mset ?vs \<and> sorted_wrt num_le s \<and> stat_median st = median_sorted s"
      using ms srt vals by (intro exI [of _ ?s]) simp
    ultimately show ?thesis by blast
  qed
  have ex: "getNumericStats
     \<lparr>data = [[(''v'', JNum (Fin 1))], [(''v'', JNum (Fin 2))], [(''v'', JNum (Fin 3))],
              [(''v'', JNum (Fin 4))]],
      fieldInfos = [\<lparr>name = ''v'', type = TNumber\<rparr>]\<rparr> ''v'' =
     Some \<lparr>stat_min = Fin 1, stat_max = Fin 4, stat_avg = Fin (5 / 2), stat_median = Fin (5 / 2)\<rparr>"
    by code_simp
  from none some ex show ?thesis by blast
qed

theorem numeric_stats_witness:
  "getNumericStats measurements ''v'' =
     Some \<lparr>stat_min = Fin 1, stat_max = Fin 10, stat_avg = Fin 4, stat_median = Fin 3\<rparr> \<and>
   parsed_cells ''v'' (data measurements) = [Fin 3, Fin 1, Fin 4, Fin 2, Fin 10] \<and>
   Fin 1 \<in> set (parsed_cells ''v'' (data measurements)) \<and>
   list_all (num_le (Fin 1)) (parsed_cells ''v'' (data measurements)) \<and>
   Fin 10 \<in> set (parsed_cells ''v'' (data measurements)) \<and>
   list_all (\<lambda>v. num_le v (Fin 10)) (parsed_cells ''v'' (data measurements)) \<and>
   Fin 4 = mean_of_parsed (cells_of ''v'' (data measurements))"
proof -
  have h: "getNumericStats measurements ''v'' =
     Some \<lparr>stat_min = Fin 1, stat_max = Fin 10, stat_avg = Fin 4, stat_median = Fin 3\<rparr>"
    by code_simp
  have p: "parsed_cells ''v'' (data measurements) = [Fin 3, Fin 1, Fin 4, Fin 2, Fin 10]"
    by code_simp
  from numeric_stats [of measurements "''v''"
      "\<lparr>stat_min = Fin 1, stat_max = Fin 10, stat_avg = Fin 4, stat_median = Fin 3\<rparr>"] h
  have "Fin 1 \<in> set (parsed_cells ''v'' (data measurements)) \<and>
      (\<forall>v\<in>set (parsed_cells ''v'' (data measurements)). num_le (Fin 1) v) \<and>
      Fin 10 \<in> set (parsed_cells ''v'' (data measurements)) \<and>
      (\<forall>v\<in>set (parsed_cells ''v'' (data measurements)). num_le v (Fin 10)) \<and>
      Fin 4 = mean_of_parsed (cells_of ''v'' (data measurements))"
    by simp
  with h p show ?thesis
    by (simp only: list_all_iff) blast
qed

subsection \<open>CSV export and ingestion\<close>

lemma js_split_not_Nil: "js_split sep s \<noteq> []"
  by (induction s) (simp_all add: Let_def)

lemma js_split_no_sep: "sep \<notin> set s \<Longrightarrow> js_split sep s = [s]"
  by (induction s) (auto simp: Let_def)

lemma js_split_append_sep:
  "sep \<notin> set x \<Longrightarrow> js_split sep (x @ sep # rest) = x # js_split sep rest"
  by (induction x) (auto simp: Let_def)

lemma js_split_join:
  "xs \<noteq> [] \<Longrightarrow> (\<forall>x\<in>set xs. sep \<notin> set x) \<Longrightarrow> js_split sep (js_join sep xs) = xs"
proof (induction sep xs rule: js_join.induct)
  case (1 sep)
  then show ?case by simp
next
  case (2 sep x)
  then show ?case by (simp add: js_split_no_sep)
next
  case (3 sep x y zs)
  then show ?case by (simp add: js_split_append_sep)
qed

lemma set_js_join: "c \<in> set (js_join sep xs) \<Longrightarrow> c = sep \<or> (\<exists>x\<in>set xs. c \<in> set x)"
  by (induction sep xs rule: js_join.induct) auto

lemma js_join_Nil_iff: "(js_join sep xs = []) = (xs = [] \<or> xs = [[]])"
  by (induction sep xs rule: js_join.induct) auto

lemma hd_js_join:
  "xs \<noteq> [] \<Longrightarrow> js_join sep xs \<noteq> [] \<Longrightarrow>
     hd (js_join sep xs) = (if hd xs = [] then sep else hd (hd xs))"
  by (induction sep xs rule: js_join.induct) (auto simp: hd_append)

lemma last_js_join:
  "xs \<noteq> [] \<Longrightarrow> js_join sep xs \<noteq> [] \<Longrightarrow>
     last (js_join sep xs) = (if last xs = [] then sep else last (last xs))"
proof (induction sep xs rule: js_join.induct)
  case (1 sep)
  then show ?case by simp
next
  case (2 sep x)
  then show ?case by simp
next
  case (3 sep x y zs)
  show ?case
  proof (cases "js_join sep (y # zs) = []")
    case True
    then have "y # zs = [[]]" by (simp add: js_join_Nil_iff)
    then show ?thesis by simp
  next
    case False
    with 3 show ?thesis by simp
  qed
qed

lemma plain_ends: "plain s \<Longrightarrow> s = [] \<or> (\<not> is_space (hd s) \<and> \<not> is_space (last s))"
  using trim_ends [of s] by (simp add: plain_def)

lemma parse_cell_plain: "plain s \<Longrightarrow> parse_cell s = s"
  by (auto simp: parse_cell_def plain_def filter_id_conv)

lemma not_space_comma: "\<not> is_space comma"
  by (simp add: is_space_def comma_def)

lemma comma_not_newline: "comma \<noteq> newline"
  by (simp add: comma_def newline_def)

lemma parse_row_values:
  assumes d: "distinct headers" and np: "''__proto__'' \<notin> set headers"
    and l: "length (js_split comma line) = length headers"
  shows "parse_row headers line = zip headers (map (\<lambda>s. JStr (parse_cell s)) (js_split comma line))"
proof -
  let ?vals = "map parse_cell (js_split comma line)"
  let ?g = "\<lambda>index. if index < length ?vals \<and> ?vals ! index \<noteq> [] then JStr (?vals ! index) else JStr []"
  let ?ps = "zip headers [0..<length headers]"
  have keys: "map fst ?ps = headers" by simp
  have "parse_row headers line = foldl (\<lambda>r x. set_prop r (fst x) (?g (snd x))) [] ?ps"
    by (simp add: parse_row_def Let_def case_prod_unfold)
  also have "\<dots> = foldl (\<lambda>r x. AList.update (fst x) (?g (snd x)) r) []
                     (filter (\<lambda>x. fst x \<noteq> ''__proto__'') ?ps)"
    by (rule fold_set_prop) simp
  also have "filter (\<lambda>x. fst x \<noteq> ''__proto__'') ?ps = ?ps"
    using np by (auto simp: filter_id_conv dest: set_zip_leftD)
  also have "foldl (\<lambda>r x. AList.update (fst x) (?g (snd x)) r) [] ?ps =
             [] @ map (\<lambda>x. (fst x, ?g (snd x))) ?ps"
    using d by (intro fold_update_fresh) (simp_all only: keys, simp)
  also have "[] @ map (\<lambda>x. (fst x, ?g (snd x))) ?ps = zip headers (map ?g [0..<length headers])"
    by (simp add: zip_map2 case_prod_unfold)
  also have "map ?g [0..<length headers] = map (\<lambda>i. JStr (?vals ! i)) [0..<length ?vals]"
    using l by auto
  also have "\<dots> = map JStr ?vals"
    by (rule nth_equalityI) simp_all
  finally show ?thesis by (simp add: comp_def)
qed

lemma plain_cell_text:
  assumes "plain_cell v"
  shows "plain (join_text P (csv_value v)) \<and> v = JStr (join_text P (csv_value v))"
proof -
  from assms obtain s where v: "v = JStr s" and p: "plain s"
    by (cases v) (auto simp: plain_cell_def)
  from p have "csv_value v = v" by (simp add: v csv_value_def plain_def)
  then have "join_text P (csv_value v) = s" by (simp add: v join_text_def to_string_def)
  with v p show ?thesis by simp
qed

lemma csv_line_split:
  assumes "keys \<noteq> []" and "list_all (\<lambda>k. plain_cell (get r k)) keys"
  shows "js_split comma (csv_line P keys r) = map (\<lambda>k. join_text P (csv_value (get r k))) keys"
  unfolding csv_line_def
proof (rule js_split_join)
  show "map (\<lambda>k. join_text P (csv_value (get r k))) keys \<noteq> []" using assms(1) by simp
  show "\<forall>x\<in>set (map (\<lambda>k. join_text P (csv_value (get r k))) keys). comma \<notin> set x"
    using assms(2) plain_cell_text [of _ P] by (auto simp: list_all_iff plain_def)
qed

lemma parse_csv_line:
  assumes d: "distinct keys" and np: "''__proto__'' \<notin> set keys" and ne: "keys \<noteq> []"
    and pc: "list_all (\<lambda>k. plain_cell (get r k)) keys"
  shows "parse_row keys (csv_line P keys r) = cells_under keys r"
proof -
  have sp: "js_split comma (csv_line P keys r) = map (\<lambda>k. join_text P (csv_value (get r k))) keys"
    using ne pc by (rule csv_line_split)
  then have "length (js_split comma (csv_line P keys r)) = length keys" by simp
  from parse_row_values [OF d np this]
  have "parse_row keys (csv_line P keys r) =
        zip keys (map (\<lambda>k. JStr (parse_cell (join_text P (csv_value (get r k))))) keys)"
    by (simp add: sp comp_def)
  also have "map (\<lambda>k. JStr (parse_cell (join_text P (csv_value (get r k))))) keys = map (get r) keys"
  proof (rule map_cong [OF refl])
    fix k assume "k \<in> set keys"
    with pc have "plain_cell (get r k)" by (simp add: list_all_iff)
    from plain_cell_text [OF this, of P]
    show "JStr (parse_cell (join_text P (csv_value (get r k)))) = get r k"
      by (simp add: parse_cell_plain)
  qed
  also have "zip keys (map (get r) keys) = cells_under keys r"
    by (simp add: cells_under_def zip_map2 zip_same_conv_map)
  finally show ?thesis .
qed

lemma csv_line_no_newline:
  assumes "list_all (\<lambda>k. plain_cell (get r k)) keys"
  shows "newline \<notin> set (csv_line P keys r)"
proof
  assume "newline \<in> set (csv_line P keys r)"
  then have "newline = comma \<or>
      (\<exists>x\<in>set (map (\<lambda>k. join_text P (csv_value (get r k))) keys). newline \<in> set x)"
    unfolding csv_line_def by (rule set_js_join)
  with comma_not_newline obtain k where "k \<in> set keys"
    "newline \<in> set (join_text P (csv_value (get r k)))" by auto
  with assms plain_cell_text [of "get r k" P] show False
    by (auto simp: list_all_iff plain_def)
qed

lemma header_no_newline:
  assumes "list_all plain keys"
  shows "newline \<notin> set (js_join comma keys)"
proof
  assume "newline \<in> set (js_join comma keys)"
  then have "newline = comma \<or> (\<exists>x\<in>set keys. newline \<in> set x)" by (rule set_js_join)
  with comma_not_newline assms show False by (auto simp: list_all_iff plain_def)
qed

lemma header_split:
  assumes "keys \<noteq> []" "list_all plain keys"
  shows "map parse_cell (js_split comma (js_join comma keys)) = keys"
proof -
  have "js_split comma (js_join comma keys) = keys"
    using assms by (intro js_split_join) (auto simp: list_all_iff plain_def)
  moreover have "map parse_cell keys = keys"
    using assms(2) by (simp add: list_all_iff parse_cell_plain map_idI)
  ultimately show ?thesis by simp
qed

lemma not_space_hd_join:
  assumes "xs \<noteq> []" "js_join comma xs \<noteq> []" "list_all plain xs"
  shows "\<not> is_space (hd (js_join comma xs))"
proof (cases "hd xs = []")
  case True
  with assms show ?thesis by (simp add: hd_js_join not_space_comma)
next
  case False
  from assms(1,3) have "plain (hd xs)" by (cases xs) simp_all
  with False have "\<not> is_space (hd (hd xs))" using plain_ends by blast
  with False assms show ?thesis by (simp add: hd_js_join)
qed

lemma not_space_last_join:
  assumes "xs \<noteq> []" "js_join comma xs \<noteq> []" "list_all plain xs"
  shows "\<not> is_space (last (js_join comma xs))"
proof (cases "last xs = []")
  case True
  with assms show ?thesis by (simp add: last_js_join not_space_comma)
next
  case False
  from assms(1,3) have "plain (last xs)" by (simp add: list_all_iff)
  with False have "\<not> is_space (last (last xs))" using plain_ends by blast
  with False assms show ?thesis by (simp add: last_js_join)
qed

lemma export_text_trimmed:
  assumes ne: "rows \<noteq> []" and pk: "list_all plain keys"
    and pc: "list_all (\<lambda>r. list_all (\<lambda>k. plain_cell (get r k)) keys) rows"
    and edge: "keys \<noteq> [] \<and> (2 \<le> length keys \<or> (hd keys \<noteq> [] \<and> get (last rows) (hd keys) \<noteq> JStr []))"
  shows "trim (js_join newline (js_join comma keys # map (csv_line P keys) rows)) =
         js_join newline (js_join comma keys # map (csv_line P keys) rows)"
proof (rule trim_fixed, rule disjI2)
  let ?L0 = "js_join comma keys"
  let ?Ls = "map (csv_line P keys) rows"
  let ?T = "js_join newline (?L0 # ?Ls)"
  let ?C = "map (\<lambda>k. join_text P (csv_value (get (last rows) k))) keys"
  from edge have kne: "keys \<noteq> []" by simp
  have k1: "keys \<noteq> [[]]"
  proof
    assume "keys = [[]]"
    with edge show False by simp
  qed
  from kne k1 have L0: "?L0 \<noteq> []" by (simp add: js_join_Nil_iff)
  then have T: "?T \<noteq> []" by (simp add: js_join_Nil_iff)
  have hdT: "hd ?T = hd ?L0"
    using L0 T by (simp add: hd_js_join)
  have h: "\<not> is_space (hd ?T)"
    unfolding hdT using kne L0 pk by (rule not_space_hd_join)
  from ne have lastLs: "last (?L0 # ?Ls) = csv_line P keys (last rows)"
    by (simp add: last_map)
  from ne pc have pl: "list_all (\<lambda>k. plain_cell (get (last rows) k)) keys"
    by (simp add: list_all_iff)
  then have plC: "list_all plain ?C"
    using plain_cell_text [of _ P] by (auto simp: list_all_iff)
  from kne have Cne: "?C \<noteq> []" by simp
  have C1: "?C \<noteq> [[]]"
  proof
    assume c: "?C = [[]]"
    then have "length keys = 1" by (metis length_map length_Cons list.size(3) One_nat_def)
    then obtain k where k: "keys = [k]" by (cases keys) auto
    with c have e: "join_text P (csv_value (get (last rows) k)) = []" by simp
    from pl k have "plain_cell (get (last rows) k)" by simp
    from plain_cell_text [OF this, of P] e have "get (last rows) k = JStr []" by simp
    with edge k show False by simp
  qed
  from Cne C1 have line: "csv_line P keys (last rows) \<noteq> []"
    by (simp add: csv_line_def js_join_Nil_iff)
  have lastT: "last ?T = last (csv_line P keys (last rows))"
    using T line lastLs by (simp add: last_js_join del: js_join.simps last.simps)
  have "\<not> is_space (last (js_join comma ?C))"
    using Cne line [unfolded csv_line_def] plC by (rule not_space_last_join)
  then have l: "\<not> is_space (last ?T)"
    unfolding lastT csv_line_def .
  from h l show "\<not> is_space (hd ?T) \<and> \<not> is_space (last ?T)" ..
qed

lemma get_cells_under: "k \<in> set keys \<Longrightarrow> get (cells_under keys r) k = get r k"
proof -
  assume "k \<in> set keys"
  then have "map_of (map (\<lambda>k. (k, get r k)) keys) k = Some (get r k)"
    by (induction keys) auto
  then show ?thesis by (simp add: cells_under_def get_def)
qed

text \<open>
  C2. The claim is the round trip for every row list without embedded line feeds. The reader
  trims every cell, so a cell with a leading blank does not come back: for the single row
  \<^verbatim>\<open>{x: " a"}\<close> the text is \<^verbatim>\<open>x\<close>, line feed, \<^verbatim>\<open> a\<close>, and reading it gives
  \<^verbatim>\<open>{x: "a"}\<close>. (The reader also splits at every comma, quoted or not: \<^verbatim>\<open>{x: "a,b"}\<close>
  comes back as \<^verbatim>\<open>{x: "a"}\<close>. And it builds every row as an object literal, on which a
  column named \<^verbatim>\<open>__proto__\<close> leaves no key: the row \<^verbatim>\<open>{"__proto__": "x", "a": "y"}\<close> of
  \<^verbatim>\<open>JSON.parse\<close> comes back as \<^verbatim>\<open>{a: "y"}\<close>.)
\<close>

theorem csv_round_trip_loses_blank:
  "newline \<notin> set '' a'' \<and>
   parseCSV (export ref_platform [[(''x'', JStr '' a'')]] Csv) = [[(''x'', JStr ''a'')]] \<and>
   get (hd (parseCSV (export ref_platform [[(''x'', JStr '' a'')]] Csv))) ''x'' \<noteq>
     get (hd [[(''x'', JStr '' a'')]]) ''x'' \<and>
   parseCSV (export ref_platform [[(''x'', JStr ''a,b'')]] Csv) = [[(''x'', JStr ''a'')]] \<and>
   parseCSV (export ref_platform [[(''__proto__'', JStr ''x''), (''a'', JStr ''y'')]] Csv) =
     [[(''a'', JStr ''y'')]]"
  by code_simp

text \<open>
  C2, as it holds. Let the rows be non-empty, the header keys (the keys of the first row)
  distinct and none of them \<^verbatim>\<open>__proto__\<close>, every header key and every cell under a header
  key a string without comma, double quote, line feed and white space at either end, and
  the text free of an empty first or last line. Then reading the exported CSV text returns, row by row, the cells of
  the rows under the header keys: as many rows, with the same cell at every header key.
\<close>

theorem csv_round_trip_plain:
  assumes ne: "rows \<noteq> []"
    and dk: "distinct (csv_headers rows)"
    and np: "''__proto__'' \<notin> set (csv_headers rows)"
    and pk: "list_all plain (csv_headers rows)"
    and pc: "list_all (\<lambda>r. list_all (\<lambda>k. plain_cell (get r k)) (csv_headers rows)) rows"
    and edge: "no_empty_edge_line rows"
  shows "parseCSV (export P rows Csv) = map (cells_under (csv_headers rows)) rows \<and>
         length (parseCSV (export P rows Csv)) = length rows \<and>
         (\<forall>i<length rows. \<forall>k\<in>set (csv_headers rows).
            get (parseCSV (export P rows Csv) ! i) k = get (rows ! i) k)"
proof -
  let ?keys = "csv_headers rows"
  let ?L0 = "js_join comma ?keys"
  let ?Ls = "map (csv_line P ?keys) rows"
  let ?T = "js_join newline (?L0 # ?Ls)"
  from edge have kne: "?keys \<noteq> []" by (simp add: no_empty_edge_line_def)
  have ex: "export P rows Csv = ?T"
    using ne by (simp add: export_def csv_headers_def Let_def)
  have tr: "trim ?T = ?T"
    using ne pk pc edge [unfolded no_empty_edge_line_def] by (rule export_text_trimmed)
  have lines: "js_split newline ?T = ?L0 # ?Ls"
  proof (rule js_split_join)
    show "?L0 # ?Ls \<noteq> []" by simp
    show "\<forall>x\<in>set (?L0 # ?Ls). newline \<notin> set x"
      using header_no_newline [OF pk] csv_line_no_newline [of _ ?keys P] pc
      by (auto simp: list_all_iff)
  qed
  have hs: "map parse_cell (js_split comma ?L0) = ?keys"
    using kne pk by (rule header_split)
  have "parseCSV ?T = map (parse_row ?keys) ?Ls"
    by (simp add: parseCSV_def tr lines hs Let_def)
  also have "\<dots> = map (cells_under ?keys) rows"
    using pc by (simp add: list_all_iff parse_csv_line [OF dk np kne])
  finally have eq: "parseCSV (export P rows Csv) = map (cells_under ?keys) rows"
    by (simp only: ex)
  then show ?thesis
    by (simp add: get_cells_under)
qed

theorem csv_round_trip_plain_witness:
  "round_trip_rows \<noteq> [] \<and> distinct (csv_headers round_trip_rows) \<and>
   ''__proto__'' \<notin> set (csv_headers round_trip_rows) \<and>
   list_all plain (csv_headers round_trip_rows) \<and>
   list_all (\<lambda>r. list_all (\<lambda>k. plain_cell (get r k)) (csv_headers round_trip_rows)) round_trip_rows \<and>
   no_empty_edge_line round_trip_rows \<and>
   parseCSV (export ref_platform round_trip_rows Csv) =
     [[(''x'', JStr ''a''), (''y'', JStr ''b c'')], [(''x'', JStr ''d''), (''y'', JStr [])],
      [(''x'', JStr []), (''y'', JStr [])]] \<and>
   length (parseCSV (export ref_platform round_trip_rows Csv)) = length round_trip_rows"
proof -
  have h1: "round_trip_rows \<noteq> []" by code_simp
  have h2: "distinct (csv_headers round_trip_rows)" by code_simp
  have hp: "''__proto__'' \<notin> set (csv_headers round_trip_rows)" by code_simp
  have h3: "list_all plain (csv_headers round_trip_rows)" by code_simp
  have h4: "list_all (\<lambda>r. list_all (\<lambda>k. plain_cell (get r k)) (csv_headers round_trip_rows))
              round_trip_rows" by code_simp
  have h5: "no_empty_edge_line round_trip_rows" by code_simp
  have c: "map (cells_under (csv_headers round_trip_rows)) round_trip_rows =
     [[(''x'', JStr ''a''), (''y'', JStr ''b c'')], [(''x'', JStr ''d''), (''y'', JStr [])],
      [(''x'', JStr []), (''y'', JStr [])]]" by code_simp
  note r = csv_round_trip_plain [OF h1 h2 hp h3 h4 h5, of ref_platform]
  from r have a: "parseCSV (export ref_platform round_trip_rows Csv) =
     [[(''x'', JStr ''a''), (''y'', JStr ''b c'')], [(''x'', JStr ''d''), (''y'', JStr [])],
      [(''x'', JStr []), (''y'', JStr [])]]"
    unfolding c by (rule conjunct1)
  from r have b: "length (parseCSV (export ref_platform round_trip_rows Csv)) = length round_trip_rows"
    by blast
  from h1 h2 hp h3 h4 h5 a b show ?thesis
    by blast
qed

end
